theory Spec2Isabelle
  imports Complex_Main "HOL-Library.Stream"
begin

section \<open>JavaScript numbers\<close>

text \<open>
  The engine computes with JavaScript numbers. A number is modelled as a real, or one of
  the three special values of IEEE-754 arithmetic. Finite arithmetic is exact: rounding,
  overflow and underflow of binary64 are not part of the model, and there is one zero.
  The special values arise as in IEEE-754 from operations on exact values (division by
  zero, a function outside its domain) and propagate by the IEEE-754 rules.
\<close>

datatype jsnum = Fin real | PInf | NInf | NaN

fun isFinite :: "jsnum \<Rightarrow> bool" where
  "isFinite (Fin a) = True"
| "isFinite PInf = False"
| "isFinite NInf = False"
| "isFinite NaN = False"

fun jneg :: "jsnum \<Rightarrow> jsnum" where
  "jneg (Fin a) = Fin (- a)"
| "jneg PInf = NInf"
| "jneg NInf = PInf"
| "jneg NaN = NaN"

fun jadd :: "jsnum \<Rightarrow> jsnum \<Rightarrow> jsnum" where
  "jadd NaN y = NaN"
| "jadd x NaN = NaN"
| "jadd (Fin a) (Fin b) = Fin (a + b)"
| "jadd PInf NInf = NaN"
| "jadd NInf PInf = NaN"
| "jadd PInf y = PInf"
| "jadd x PInf = PInf"
| "jadd NInf y = NInf"
| "jadd x NInf = NInf"

definition jsub :: "jsnum \<Rightarrow> jsnum \<Rightarrow> jsnum" where
  "jsub x y = jadd x (jneg y)"

fun jmul :: "jsnum \<Rightarrow> jsnum \<Rightarrow> jsnum" where
  "jmul NaN y = NaN"
| "jmul x NaN = NaN"
| "jmul (Fin a) (Fin b) = Fin (a * b)"
| "jmul (Fin a) PInf = (if a = 0 then NaN else if 0 < a then PInf else NInf)"
| "jmul (Fin a) NInf = (if a = 0 then NaN else if 0 < a then NInf else PInf)"
| "jmul PInf (Fin b) = (if b = 0 then NaN else if 0 < b then PInf else NInf)"
| "jmul NInf (Fin b) = (if b = 0 then NaN else if 0 < b then NInf else PInf)"
| "jmul PInf PInf = PInf"
| "jmul PInf NInf = NInf"
| "jmul NInf PInf = NInf"
| "jmul NInf NInf = PInf"

fun jdiv :: "jsnum \<Rightarrow> jsnum \<Rightarrow> jsnum" where
  "jdiv NaN y = NaN"
| "jdiv x NaN = NaN"
| "jdiv (Fin a) (Fin b) =
     (if b = 0 then (if a = 0 then NaN else if 0 < a then PInf else NInf)
      else Fin (a / b))"
| "jdiv (Fin a) PInf = Fin 0"
| "jdiv (Fin a) NInf = Fin 0"
| "jdiv PInf (Fin b) = (if 0 \<le> b then PInf else NInf)"
| "jdiv NInf (Fin b) = (if 0 \<le> b then NInf else PInf)"
| "jdiv PInf PInf = NaN"
| "jdiv PInf NInf = NaN"
| "jdiv NInf PInf = NaN"
| "jdiv NInf NInf = NaN"

text \<open>\<open>x ^ n\<close> for a literal exponent \<open>n\<close>, the only powers the program forms.\<close>

fun jpow :: "jsnum \<Rightarrow> nat \<Rightarrow> jsnum" where
  "jpow x 0 = Fin 1"
| "jpow (Fin a) n = Fin (a ^ n)"
| "jpow PInf n = PInf"
| "jpow NInf n = (if even n then PInf else NInf)"
| "jpow NaN n = NaN"

text \<open>The comparison \<open>x < y\<close>: false as soon as one side is NaN.\<close>

fun jlt :: "jsnum \<Rightarrow> jsnum \<Rightarrow> bool" where
  "jlt NaN y = False"
| "jlt x NaN = False"
| "jlt (Fin a) (Fin b) = (a < b)"
| "jlt x NInf = False"
| "jlt NInf y = True"
| "jlt PInf y = False"
| "jlt x PInf = True"

text \<open>The comparison \<open>x >= y\<close>, also false as soon as one side is NaN.\<close>

definition jge :: "jsnum \<Rightarrow> jsnum \<Rightarrow> bool" where
  "jge x y = (x \<noteq> NaN \<and> y \<noteq> NaN \<and> \<not> jlt x y)"

text \<open>\<open>Math.max\<close> and \<open>Math.min\<close> of two numbers: NaN if either is NaN.\<close>

fun jmax :: "jsnum \<Rightarrow> jsnum \<Rightarrow> jsnum" where
  "jmax NaN y = NaN"
| "jmax x NaN = NaN"
| "jmax x y = (if jlt x y then y else x)"

fun jmin :: "jsnum \<Rightarrow> jsnum \<Rightarrow> jsnum" where
  "jmin NaN y = NaN"
| "jmin x NaN = NaN"
| "jmin x y = (if jlt y x then y else x)"

fun jabs :: "jsnum \<Rightarrow> jsnum" where
  "jabs (Fin a) = Fin \<bar>a\<bar>"
| "jabs PInf = PInf"
| "jabs NInf = PInf"
| "jabs NaN = NaN"

fun jsqrt :: "jsnum \<Rightarrow> jsnum" where
  "jsqrt (Fin a) = (if a < 0 then NaN else Fin (sqrt a))"
| "jsqrt PInf = PInf"
| "jsqrt NInf = NaN"
| "jsqrt NaN = NaN"

fun jacos :: "jsnum \<Rightarrow> jsnum" where
  "jacos (Fin a) = (if -1 \<le> a \<and> a \<le> 1 then Fin (arccos a) else NaN)"
| "jacos x = NaN"

fun jceil :: "jsnum \<Rightarrow> jsnum" where
  "jceil (Fin a) = Fin (of_int \<lceil>a\<rceil>)"
| "jceil x = x"

section \<open>Expression trees\<close>

text \<open>
  The program builds its expressions with the parser of the mathjs library, from strings
  it assembles from the printed form of other expressions. mathjs is not part of the
  repository. An expression is modelled by the tree the parser returns: the variable
  \<open>x\<close>, a constant, a parenthesised expression, unary minus, the four binary operators
  and the application of one of the eight named functions. Printing a tree and parsing
  the text again gives the same tree, so \<open>math.parse(`-(${f.toString()})`)\<close> is
  \<open>Neg (Paren f)\<close>, and \<open>equals\<close> is equality of trees.
\<close>

datatype fname = Sin | Cos | Exp | Tanh | Sinh | Atan | Cbrt | Asin

datatype expr =
    Var
  | Const jsnum
  | Paren expr
  | Neg expr
  | Add expr expr
  | Mul expr expr
  | Div expr expr
  | Pow expr nat
  | Fn fname expr

text \<open>
  Modelled from the spec: the pointwise evaluation of mathjs, which never raises on
  these trees and returns NaN or an infinity at a domain violation (\<open>asin\<close> outside
  \<open>[-1,1]\<close>, a division by zero).
\<close>

fun apply_fn :: "fname \<Rightarrow> jsnum \<Rightarrow> jsnum" where
  "apply_fn g NaN = NaN"
| "apply_fn Sin (Fin a) = Fin (sin a)"
| "apply_fn Sin x = NaN"
| "apply_fn Cos (Fin a) = Fin (cos a)"
| "apply_fn Cos x = NaN"
| "apply_fn Exp (Fin a) = Fin (exp a)"
| "apply_fn Exp PInf = PInf"
| "apply_fn Exp NInf = Fin 0"
| "apply_fn Tanh (Fin a) = Fin (tanh a)"
| "apply_fn Tanh PInf = Fin 1"
| "apply_fn Tanh NInf = Fin (- 1)"
| "apply_fn Sinh (Fin a) = Fin (sinh a)"
| "apply_fn Sinh x = x"
| "apply_fn Atan (Fin a) = Fin (arctan a)"
| "apply_fn Atan PInf = Fin (pi / 2)"
| "apply_fn Atan NInf = Fin (- (pi / 2))"
| "apply_fn Cbrt (Fin a) = Fin (root 3 a)"
| "apply_fn Cbrt x = x"
| "apply_fn Asin (Fin a) = (if -1 \<le> a \<and> a \<le> 1 then Fin (arcsin a) else NaN)"
| "apply_fn Asin x = NaN"

fun evaluate :: "expr \<Rightarrow> jsnum \<Rightarrow> jsnum" where
  "evaluate Var x = x"
| "evaluate (Const c) x = c"
| "evaluate (Paren e) x = evaluate e x"
| "evaluate (Neg e) x = jneg (evaluate e x)"
| "evaluate (Add e1 e2) x = jadd (evaluate e1 x) (evaluate e2 x)"
| "evaluate (Mul e1 e2) x = jmul (evaluate e1 x) (evaluate e2 x)"
| "evaluate (Div e1 e2) x = jdiv (evaluate e1 x) (evaluate e2 x)"
| "evaluate (Pow e n) x = jpow (evaluate e x) n"
| "evaluate (Fn g e) x = apply_fn g (evaluate e x)"

text \<open>
  \<open>node.transform\<close> with the callback of the generator: every occurrence of the symbol
  \<open>x\<close> is replaced by the given tree.
\<close>

fun transform_x :: "expr \<Rightarrow> expr \<Rightarrow> expr" where
  "transform_x Var r = r"
| "transform_x (Const c) r = Const c"
| "transform_x (Paren e) r = Paren (transform_x e r)"
| "transform_x (Neg e) r = Neg (transform_x e r)"
| "transform_x (Add e1 e2) r = Add (transform_x e1 r) (transform_x e2 r)"
| "transform_x (Mul e1 e2) r = Mul (transform_x e1 r) (transform_x e2 r)"
| "transform_x (Div e1 e2) r = Div (transform_x e1 r) (transform_x e2 r)"
| "transform_x (Pow e n) r = Pow (transform_x e r) n"
| "transform_x (Fn g e) r = Fn g (transform_x e r)"

section \<open>Simpson's rule\<close>

text \<open>
  The two \<open>for\<close> loops of \<open>simpsonsRule\<close> differ in the weight and the bound only:
  \<open>for (i = i0; i < m; i += 2) sum += w * func(a + i * h)\<close>; the running
  \<open>sum\<close> is the accumulator.
\<close>

function simpson_loop ::
  "real \<Rightarrow> (jsnum \<Rightarrow> jsnum) \<Rightarrow> real \<Rightarrow> jsnum \<Rightarrow> int \<Rightarrow> int \<Rightarrow> jsnum \<Rightarrow> jsnum" where
  "simpson_loop w func a h m i acc =
     (if i < m
      then simpson_loop w func a h m (i + 2)
             (jadd acc (jmul (Fin w) (func (jadd (Fin a) (jmul (Fin (of_int i)) h)))))
      else acc)"
  by pat_completeness auto
termination
  by (relation "measure (\<lambda>(w, func, a, h, m, i, acc). nat (m - i))") auto

declare simpson_loop.simps [simp del]

definition simpsonsRule :: "(jsnum \<Rightarrow> jsnum) \<Rightarrow> real \<Rightarrow> real \<Rightarrow> int \<Rightarrow> jsnum" where
  "simpsonsRule func a b n0 =
     (let n = (if n0 mod 2 \<noteq> 0 then n0 + 1 else n0);
          h = jdiv (Fin (b - a)) (Fin (of_int n));
          sum0 = jadd (func (Fin a)) (func (Fin b));
          sum1 = simpson_loop 4 func a h n 1 sum0;
          sum2 = simpson_loop 2 func a h (n - 1) 2 sum1
      in jmul (jdiv h (Fin 3)) sum2)"

text \<open>The default value of the parameter \<open>n\<close>.\<close>

definition simpson_n :: int where
  "simpson_n = 200"


section \<open>The angle between two functions\<close>

text \<open>
  \<open>simpsonsRule(x => node.evaluate({ x }), interval[0], interval[1])\<close>: every integral
  of \<open>calculateAngle\<close> is taken with the default \<open>n\<close>.
\<close>

definition integrate_node :: "expr \<Rightarrow> real \<times> real \<Rightarrow> jsnum" where
  "integrate_node node interval =
     simpsonsRule (\<lambda>x. evaluate node x) (fst interval) (snd interval) simpson_n"

text \<open>The integral of \<open>(f)^2\<close> and its square root.\<close>

definition normSq :: "expr \<Rightarrow> real \<times> real \<Rightarrow> jsnum" where
  "normSq f interval = integrate_node (Pow (Paren f) 2) interval"

definition norm_of :: "expr \<Rightarrow> real \<times> real \<Rightarrow> jsnum" where
  "norm_of f interval = jsqrt (normSq f interval)"

text \<open>The integral of \<open>(f1) * (f2)\<close>.\<close>

definition innerProduct :: "expr \<Rightarrow> expr \<Rightarrow> real \<times> real \<Rightarrow> jsnum" where
  "innerProduct f1 f2 interval = integrate_node (Mul (Paren f1) (Paren f2)) interval"

record angle_result =
  angle :: "jsnum option"
  f1_final :: expr
  f2_final :: expr

text \<open>
  The last step of \<open>calculateAngle\<close>: the clamped cosine, its arc cosine, and the
  conversion to degrees.
\<close>

definition angleDeg :: "jsnum \<Rightarrow> jsnum \<Rightarrow> jsnum \<Rightarrow> jsnum" where
  "angleDeg ip normF1 normF2 =
     (let cosTheta = jdiv ip (jmul normF1 normF2);
          cosTheta = jmax (Fin (- 1)) (jmin (Fin 1) cosTheta);
          angleRad = jacos cosTheta
      in jmul angleRad (jdiv (Fin 180) (Fin pi)))"

text \<open>
  \<open>calculateAngle\<close>. The angle \<open>null\<close> is \<open>None\<close>. The evaluation of a tree does not
  raise, so the \<open>catch\<close> branch has no counterpart here.
\<close>

definition calculateAngle ::
  "expr \<Rightarrow> expr \<Rightarrow> bool \<Rightarrow> real \<times> real \<Rightarrow> bool \<Rightarrow> angle_result" where
  "calculateAngle f1_orig f2_orig isUnitary interval ensureAcute =
     (let normF1u = norm_of f1_orig interval;
          normF2u = norm_of f2_orig interval
      in if isUnitary \<and> (normF1u = Fin 0 \<or> normF2u = Fin 0)
         then \<lparr>angle = None, f1_final = f1_orig, f2_final = f2_orig\<rparr>
         else
           (let f1 = (if isUnitary then Div (Paren f1_orig) (Const normF1u) else f1_orig);
                f2u = (if isUnitary then Div (Paren f2_orig) (Const normF2u) else f2_orig);
                ip = innerProduct f1 f2u interval;
                flip = (ensureAcute \<and> jlt ip (Fin 0));
                f2 = (if flip then Neg (Paren f2u) else f2u);
                ip' = (if flip then jneg ip else ip);
                normF1 = norm_of f1 interval;
                normF2 = norm_of f2 interval
            in if normF1 = Fin 0 \<or> normF2 = Fin 0
               then \<lparr>angle = None, f1_final = f1, f2_final = f2\<rparr>
               else \<lparr>angle = Some (angleDeg ip' normF1 normF2),
                     f1_final = f1, f2_final = f2\<rparr>))"

section \<open>Random functions\<close>

text \<open>
  \<open>Math.random()\<close> is a stream of numbers in \<open>[0,1)\<close>: a call takes the head and
  leaves the tail. A string that the generator assembles is modelled by the tree it
  parses to; every piece is put into parentheses before it is joined to others.
\<close>

type_synonym rng = "real stream"

definition baseFunctions :: "real \<Rightarrow> expr list" where
  "baseFunctions intervalLimit =
     [Var, Pow Var 2, Pow Var 3, Pow Var 4,
      Fn Sin Var, Fn Cos Var, Fn Exp Var,
      Fn Tanh Var, Fn Sinh Var,
      Fn Atan Var, Div (Const (Fin 1)) (Paren (Add (Pow Var 2) (Const (Fin 1)))),
      Fn Cbrt Var,
      Fn Asin (Div Var (Const (Fin intervalLimit)))]"

definition scalars :: "real list" where
  "scalars = [1 / 2, 3 / 2, 2, 3]"

definition createModifiedString :: "expr \<Rightarrow> rng \<Rightarrow> expr \<times> rng" where
  "createModifiedString func rng =
     (let (modifiedFunc, rng1) =
            (if shd rng < 33 / 100
             then (Mul (Const (Fin (scalars ! nat \<lfloor>shd (stl rng) * 4\<rfloor>))) (Paren func),
                   stl (stl rng))
             else (func, stl rng))
      in if shd rng1 < 1 / 2 then (Neg (Paren modifiedFunc), stl rng1)
         else (modifiedFunc, stl rng1))"

text \<open>
  \<open>[...baseFunctions].sort(() => 0.5 - Math.random())\<close>: which permutation comes out,
  and how many random numbers the sort takes, depends on the sorting algorithm of the
  JavaScript engine. The shuffle is a parameter of the model.
\<close>

type_synonym shuffle = "expr list \<Rightarrow> rng \<Rightarrow> expr list \<times> rng"

definition generateRandomFunction :: "shuffle \<Rightarrow> real \<Rightarrow> rng \<Rightarrow> expr \<times> rng" where
  "generateRandomFunction sortRandom intervalLimit rng =
     (let numToCombine = nat \<lfloor>shd rng * 3\<rfloor> + 1;
          (shuffled, rng0) = sortRandom (baseFunctions intervalLimit) (stl rng);
          chosenFuncs = take numToCombine shuffled
      in if numToCombine = 1 then createModifiedString (chosenFuncs ! 0) rng0
         else
           (let (m1, rng1) = createModifiedString (chosenFuncs ! 0) rng0;
                f1String = Paren m1;
                (m2, rng2) = createModifiedString (chosenFuncs ! 1) rng1;
                f2String = Paren m2
            in if numToCombine = 2 then
                 (let op = nat \<lfloor>shd rng2 * 3\<rfloor>; rng3 = stl rng2
                  in if op = 0 then (Add f1String f2String, rng3)
                     else if op = 1 then (Mul f1String f2String, rng3)
                     else if shd rng3 < 1 / 2
                       then (transform_x f1String f2String, stl rng3)
                       else (transform_x f2String f1String, stl rng3))
               else
                 (let (m3, rng3) = createModifiedString (chosenFuncs ! 2) rng2;
                      f3String = Paren m3;
                      op1 = nat \<lfloor>shd rng3 * 2\<rfloor>;
                      intermediate =
                        Paren (if op1 = 0 then Add f1String f2String
                               else Mul f1String f2String);
                      op2 = nat \<lfloor>shd (stl rng3) * 2\<rfloor>;
                      rng5 = stl (stl rng3)
                  in if op2 = 0 then (Add (Paren intermediate) f3String, rng5)
                     else (Mul (Paren intermediate) f3String, rng5))))"

text \<open>
  The loop of \<open>getNewFunctions\<close>:
  \<open>while (f1.equals(f2) || f1.equals(math.parse(`-(${f2.toString()})`)))\<close>. It has no
  bound, so a run that never leaves it is the value \<open>None\<close>.
\<close>

partial_function (option) redraw ::
  "shuffle \<Rightarrow> real \<Rightarrow> expr \<Rightarrow> expr \<Rightarrow> rng \<Rightarrow> (expr \<times> rng) option" where
  "redraw sortRandom intervalLimit f1 f2 rng =
     (if f1 = f2 \<or> f1 = Neg (Paren f2)
      then (case generateRandomFunction sortRandom intervalLimit rng of
              (f2', rng') \<Rightarrow> redraw sortRandom intervalLimit f1 f2' rng')
      else Some (f2, rng))"

definition intervalLimit_of :: "real \<times> real \<Rightarrow> real" where
  "intervalLimit_of interval = max \<bar>fst interval\<bar> \<bar>snd interval\<bar>"

definition getNewFunctions ::
  "shuffle \<Rightarrow> real \<times> real \<Rightarrow> rng \<Rightarrow> ((expr \<times> expr) \<times> rng) option" where
  "getNewFunctions sortRandom interval rng =
     (let intervalLimit = intervalLimit_of interval;
          (f1, rng1) = generateRandomFunction sortRandom intervalLimit rng;
          (f2, rng2) = generateRandomFunction sortRandom intervalLimit rng1
      in case redraw sortRandom intervalLimit f1 f2 rng2 of
           None \<Rightarrow> None
         | Some (f2', rng3) \<Rightarrow> Some ((f1, f2'), rng3))"

text \<open>
  One outcome of the sort, used in the examples below: the list keeps its order. How many
  random numbers the sort of an engine takes on the way is not modelled; this one takes
  none.
\<close>

definition keep_order :: shuffle where
  "keep_order xs rng = (xs, rng)"

text \<open>
  The order that a sort leaves when it moves every element in front of the elements
  before it.
\<close>

definition reverse_order :: shuffle where
  "reverse_order xs rng = (rev xs, rng)"

text \<open>
  Random numbers for two calls of the generator, each of them composing the first two
  chosen primitives; after them \<open>Math.random()\<close> returns 0.
\<close>

definition asin_draws :: rng where
  "asin_draws = [1/2, 1/2, 1/2, 0, 1/2, 1/2, 9/10, 0,
                 1/2, 1/2, 1/2, 0, 9/10, 1/2, 9/10, 0] @- sconst 0"

section \<open>A round\<close>

text \<open>The 100 sample points of the scaling logic: \<open>a + (i / 99) * (b - a)\<close>.\<close>

definition x_vals_for_scaling :: "real \<times> real \<Rightarrow> jsnum list" where
  "x_vals_for_scaling currentInterval =
     map (\<lambda>i. Fin (fst currentInterval
                    + (real i / 99) * (snd currentInterval - fst currentInterval)))
       [0..<100]"

text \<open>
  \<open>Math.max(...ys.filter(y => isFinite(y)).map(Math.abs))\<close>; the maximum of no number
  is \<open>-Infinity\<close>.
\<close>

definition max_abs :: "jsnum list \<Rightarrow> jsnum" where
  "max_abs ys = foldr jmax (map jabs (filter isFinite ys)) NInf"

definition max_abs_y :: "expr \<Rightarrow> real \<times> real \<Rightarrow> jsnum" where
  "max_abs_y f currentInterval =
     max_abs (map (\<lambda>x. evaluate f x) (x_vals_for_scaling currentInterval))"

text \<open>The scaling logic of \<open>startNewRound\<close>: the pair \<open>(f1_round, f2_round)\<close>.\<close>

definition scaling :: "expr \<Rightarrow> expr \<Rightarrow> real \<times> real \<Rightarrow> expr \<times> expr" where
  "scaling f1_orig f2_orig currentInterval =
     (let max_abs_y1 = max_abs_y f1_orig currentInterval;
          max_abs_y2 = max_abs_y f2_orig currentInterval
      in if jlt (Fin 0) max_abs_y1 \<and> jlt (Fin 0) max_abs_y2 then
           (let ratio = (if jlt max_abs_y2 max_abs_y1 then jdiv max_abs_y1 max_abs_y2
                         else jdiv max_abs_y2 max_abs_y1)
            in if jlt (Fin 5) ratio then
                 (let k = jceil (jdiv ratio (Fin 5))
                  in if jlt max_abs_y2 max_abs_y1
                     then (f1_orig, Mul (Paren f2_orig) (Const k))
                     else (Mul (Paren f1_orig) (Const k), f2_orig))
               else (f1_orig, f2_orig))
         else (f1_orig, f2_orig))"

text \<open>
  The loop of \<open>startNewRound\<close>: \<open>while (angleResult === null || angleResult.angle === null)\<close>.
  The body runs once before the angle is tested, and the loop has no bound. The choice of
  the interval before the loop and the sampling of the plot after it are left out.
\<close>

partial_function (option) round_loop ::
  "shuffle \<Rightarrow> bool \<Rightarrow> bool \<Rightarrow> real \<times> real \<Rightarrow> rng \<Rightarrow> (angle_result \<times> rng) option" where
  "round_loop sortRandom isUnitaryMode acuteAnglesOnly currentInterval rng =
     (case getNewFunctions sortRandom currentInterval rng of
        None \<Rightarrow> None
      | Some (funcs, rng') \<Rightarrow>
          (case scaling (fst funcs) (snd funcs) currentInterval of
             (f1_round, f2_round) \<Rightarrow>
               (if angle (calculateAngle f1_round f2_round isUnitaryMode currentInterval
                            acuteAnglesOnly) = None
                then round_loop sortRandom isUnitaryMode acuteAnglesOnly currentInterval rng'
                else Some (calculateAngle f1_round f2_round isUnitaryMode currentInterval
                             acuteAnglesOnly, rng'))))"

section \<open>Scoring a guess\<close>

text \<open>
  \<open>handleGuessChange\<close> stores a typed value only if it is a number between 0 and the
  largest angle of the mode.
\<close>

definition guessAccepted :: "bool \<Rightarrow> jsnum \<Rightarrow> bool" where
  "guessAccepted acuteAnglesOnly numValue =
     (let maxValue = (if acuteAnglesOnly then Fin 90 else Fin 180)
      in numValue \<noteq> NaN \<and> jge numValue (Fin 0) \<and> jge maxValue numValue)"

text \<open>\<open>submitGuess\<close>: the difference and the score of a parsed guess.\<close>

definition diff_of :: "jsnum \<Rightarrow> jsnum \<Rightarrow> jsnum" where
  "diff_of actual_angle guess = jabs (jsub actual_angle guess)"

definition score :: "jsnum \<Rightarrow> jsnum \<Rightarrow> jsnum" where
  "score actual_angle guess =
     jmul (Fin 100)
       (jpow (jmax (Fin 0) (jsub (Fin 1) (jdiv (diff_of actual_angle guess) (Fin 180)))) 3)"

section \<open>Properties of Simpson's rule\<close>

text \<open>
  Where the integrand is finite at every sample point, a loop adds the weighted values
  at the points \<open>a + i h\<close>, \<open>a + (i + 2) h\<close>, ... below the bound.
\<close>

lemma simpson_loop_fin:
  assumes "\<And>j::int. func (Fin (a + of_int j * hr)) = Fin (g (a + of_int j * hr))"
  shows "simpson_loop w func a (Fin hr) m i (Fin s) =
         Fin (s + w * (\<Sum>k<nat ((m - i + 1) div 2). g (a + of_int (i + 2 * int k) * hr)))"
  using assms
proof (induction w func a "Fin hr" m i "Fin s" arbitrary: s rule: simpson_loop.induct)
  case (1 w func a m i)
  show ?case
  proof (cases "i < m")
    case False
    then have "nat ((m - i + 1) div 2) = 0" by simp
    with False show ?thesis by (simp add: simpson_loop.simps)
  next
    case True
    have n: "nat ((m - i + 1) div 2) = Suc (nat ((m - (i + 2) + 1) div 2))"
      using True by (simp add: nat_eq_iff)
    have step:
      "jadd (Fin s) (jmul (Fin w) (func (jadd (Fin a) (jmul (Fin (of_int i)) (Fin hr)))))
         = Fin (s + w * g (a + of_int i * hr))"
      using "1.prems" by simp
    have "simpson_loop w func a (Fin hr) m i (Fin s)
        = simpson_loop w func a (Fin hr) m (i + 2) (Fin (s + w * g (a + of_int i * hr)))"
      using True step by (subst simpson_loop.simps) simp
    also have "\<dots> = Fin (s + w * g (a + of_int i * hr)
        + w * (\<Sum>k<nat ((m - (i + 2) + 1) div 2). g (a + of_int (i + 2 + 2 * int k) * hr)))"
      using "1.hyps"[OF True step] "1.prems" by simp
    also have "\<dots> =
        Fin (s + w * (\<Sum>k<nat ((m - i + 1) div 2). g (a + of_int (i + 2 * int k) * hr)))"
      unfolding n by (subst sum.lessThan_Suc_shift) (simp add: algebra_simps)
    finally show ?thesis .
  qed
qed

lemma simpsonsRule_fin:
  assumes g: "\<And>t. func (Fin t) = Fin (g t)" and n: "0 < n" "even n"
  shows "simpsonsRule func a b n =
         Fin ((b - a) / of_int n / 3 *
              (g a + g b
               + 4 * (\<Sum>k<nat (n div 2). g (a + of_int (1 + 2 * int k) * ((b - a) / of_int n)))
               + 2 * (\<Sum>k<nat (n div 2 - 1).
                        g (a + of_int (2 + 2 * int k) * ((b - a) / of_int n)))))"
proof -
  have e: "n mod 2 = 0" using n by presburger
  have c1: "(n - 1 + 1) div 2 = n div 2" by simp
  have c2: "(n - 1 - 2 + 1) div 2 = n div 2 - 1" using n by presburger
  show ?thesis
    using n unfolding simpsonsRule_def Let_def
    by (simp add: e g simpson_loop_fin[where g = g] c1 c2 algebra_simps)
qed

lemma simpsonsRule_odd:
  "simpsonsRule func a b (2 * m + 1) = simpsonsRule func a b (2 * m + 2)"
proof -
  have o: "(2 * m + 1) mod 2 \<noteq> 0" and e: "(2 * m + 2) mod 2 = 0" by presburger+
  have s: "2 * m + 1 + 1 = 2 * m + 2" by simp
  show ?thesis
    unfolding simpsonsRule_def by (simp only: o e s if_True if_False simp_thms)
qed

lemma simpsonsRule_const_even:
  assumes n: "0 < n" "even n"
  shows "simpsonsRule (\<lambda>x. Fin c) a b n = Fin ((b - a) * c)"
proof -
  have n2: "n = 2 * (n div 2)" and pos: "0 < n div 2" using n by presburger+
  have r: "real_of_int n = 2 * real_of_int (n div 2)" by (subst n2) simp
  have nz: "real_of_int (n div 2) \<noteq> 0" using pos by simp
  have "simpsonsRule (\<lambda>x. Fin c) a b n =
        Fin ((b - a) / of_int n / 3 *
              (c + c + 4 * (of_int (n div 2) * c) + 2 * (of_int (n div 2 - 1) * c)))"
    using pos by (subst simpsonsRule_fin[where g = "\<lambda>t. c", OF _ n]) simp_all
  also have "(b - a) / of_int n / 3 *
              (c + c + 4 * (of_int (n div 2) * c) + 2 * (of_int (n div 2 - 1) * c))
             = (b - a) * c"
    unfolding r using nz by (simp add: field_simps)
  finally show ?thesis .
qed

lemma simpsonsRule_const:
  assumes n: "0 < n"
  shows "simpsonsRule (\<lambda>x. Fin c) a b n = Fin ((b - a) * c)"
proof (cases "even n")
  case True
  with n show ?thesis by (rule simpsonsRule_const_even)
next
  case False
  then obtain m where m: "n = 2 * m + 1" by (auto elim: oddE)
  have "0 < 2 * m + 2" "even (2 * m + 2)" using n m by simp_all
  then show ?thesis
    unfolding m simpsonsRule_odd by (rule simpsonsRule_const_even)
qed

lemma weights_sum:
  assumes "0 < n" "even n"
  shows "simpson_loop 2 (\<lambda>x. Fin 1) a (Fin hr) (n - 1) 2
           (simpson_loop 4 (\<lambda>x. Fin 1) a (Fin hr) n 1 (jadd (Fin 1) (Fin 1)))
         = Fin (3 * of_int n)"
proof -
  have n2: "n = 2 * (n div 2)" and pos: "0 < n div 2" using assms by presburger+
  have c1: "(n - 1 + 1) div 2 = n div 2" by simp
  have c2: "(n - 1 - 2 + 1) div 2 = n div 2 - 1" using assms by presburger
  have c3: "(n - 2) div 2 = n div 2 - 1" by simp
  have r: "real_of_int n = 2 * real_of_int (n div 2)" by (subst n2) simp
  have "simpson_loop 2 (\<lambda>x. Fin 1) a (Fin hr) (n - 1) 2
           (simpson_loop 4 (\<lambda>x. Fin 1) a (Fin hr) n 1 (jadd (Fin 1) (Fin 1)))
        = Fin (2 + 4 * of_int (n div 2) + 2 * of_int (n div 2 - 1))"
    using pos by (simp add: simpson_loop_fin[where g = "\<lambda>t. 1"] c1 c2 c3)
  also have "2 + 4 * real_of_int (n div 2) + 2 * real_of_int (n div 2 - 1) = 3 * real_of_int n"
    unfolding r by simp
  finally show ?thesis .
qed

text \<open>
  C4. For every interval and every positive number \<open>n\<close> of subintervals (the default
  200 among them), Simpson's rule returns exactly 0 on the constant zero function and
  exactly \<open>b - a\<close> on the constant function 1: for an even \<open>n\<close> the weighted sum is
  \<open>2 + 4 (n/2) + 2 (n/2 - 1) = 3 n\<close>, which cancels the factor \<open>h / 3\<close>. The result is
  therefore within every tolerance of \<open>b - a\<close>, \<open>1e-9\<close> included; the arithmetic of the
  model is exact. An odd \<open>n\<close> is replaced by \<open>n + 1\<close> before use.
\<close>

theorem simpson_constant_functions:
  assumes "0 < n"
  shows "simpsonsRule (\<lambda>x. Fin 0) a b n = Fin 0
       \<and> simpsonsRule (\<lambda>x. Fin 1) a b n = Fin (b - a)
       \<and> simpsonsRule (\<lambda>x. Fin 0) a b simpson_n = Fin 0
       \<and> simpsonsRule (\<lambda>x. Fin 1) a b simpson_n = Fin (b - a)
       \<and> (even n \<longrightarrow>
            simpson_loop 2 (\<lambda>x. Fin 1) a (Fin h) (n - 1) 2
              (simpson_loop 4 (\<lambda>x. Fin 1) a (Fin h) n 1 (jadd (Fin 1) (Fin 1)))
            = Fin (3 * of_int n))
       \<and> simpsonsRule func a b (2 * m + 1) = simpsonsRule func a b (2 * m + 2)"
  using simpsonsRule_const[OF assms, of 0 a b] simpsonsRule_const[OF assms, of 1 a b]
    simpsonsRule_const[of simpson_n 0 a b] simpsonsRule_const[of simpson_n 1 a b]
    simpsonsRule_odd[of func a b m] weights_sum[OF assms, of a h]
  by (simp add: simpson_n_def)

theorem simpson_constant_functions_witness:
  "(0::int) < 200 \<and> even (200::int)
   \<and> simpsonsRule (\<lambda>x. Fin 0) (- 1) 1 200 = Fin 0
   \<and> simpsonsRule (\<lambda>x. Fin 1) (- 1) 1 200 = Fin 2
   \<and> simpson_loop 2 (\<lambda>x. Fin 1) (- 1) (Fin (1 / 100)) (200 - 1) 2
        (simpson_loop 4 (\<lambda>x. Fin 1) (- 1) (Fin (1 / 100)) 200 1 (jadd (Fin 1) (Fin 1)))
       = Fin 600
   \<and> simpsonsRule (evaluate Var) (- 1) 1 199 = simpsonsRule (evaluate Var) (- 1) 1 200"
  using simpson_constant_functions[of 200 "- 1" 1 "1 / 100" "evaluate Var" 99] by simp

section \<open>Arithmetic of the special values\<close>

lemma jpow_Fin [simp]: "jpow (Fin a) n = Fin (a ^ n)"
  by (cases n) simp_all

lemma jpow_NaN [simp]: "0 < n \<Longrightarrow> jpow NaN n = NaN"
  by (cases n) simp_all

lemma jadd_NaN_right [simp]: "jadd x NaN = NaN"
  by (cases x) simp_all

lemma jmul_NaN_right [simp]: "jmul x NaN = NaN"
  by (cases x) simp_all

lemma jdiv_NaN_right [simp]: "jdiv x NaN = NaN"
  by (cases x) simp_all

lemma jmax_NaN_right [simp]: "jmax x NaN = NaN"
  by (cases x) simp_all

lemma jmin_NaN_right [simp]: "jmin x NaN = NaN"
  by (cases x) simp_all

section \<open>Simpson's rule on squares, on NaN and on a negated integrand\<close>

text \<open>With \<open>n = 200\<close> the rule is exact on \<open>c t\<^sup>2\<close>, over every interval.\<close>

lemma sum_sq_arith:
  "(\<Sum>k<m. (c + d * real k)^2) =
     real m * c^2 + c * d * real m * (real m - 1) + d^2 * (real m - 1) * real m * (2 * real m - 1) / 6"
  by (induction m) (simp_all add: field_simps power2_eq_square)

lemma simpson_square:
  assumes g: "\<And>t. func (Fin t) = Fin (c * t^2)"
  shows "simpsonsRule func a b simpson_n = Fin (c * ((b^3 - a^3) / 3))"
proof -
  define h where "h = (b - a) / 200"
  have s1: "(\<Sum>k<100. c * (a + real_of_int (1 + 2 * int k) * ((b - a) / real_of_int 200))^2)
      = c * (\<Sum>k<100. ((a + h) + (2 * h) * real k)^2)"
  proof -
    have "\<And>k. a + real_of_int (1 + 2 * int k) * ((b - a) / real_of_int 200)
           = (a + h) + (2 * h) * real k" by (simp add: field_simps h_def)
    then show ?thesis by (simp only: sum_distrib_left)
  qed
  have s2: "(\<Sum>k<99. c * (a + real_of_int (2 + 2 * int k) * ((b - a) / real_of_int 200))^2)
      = c * (\<Sum>k<99. ((a + 2 * h) + (2 * h) * real k)^2)"
  proof -
    have "\<And>k. a + real_of_int (2 + 2 * int k) * ((b - a) / real_of_int 200)
           = (a + 2 * h) + (2 * h) * real k" by (simp add: field_simps h_def)
    then show ?thesis by (simp only: sum_distrib_left)
  qed
  have b: "b = a + 200 * h" unfolding h_def by (simp add: field_simps)
  have "simpsonsRule func a b 200 =
     Fin ((b - a) / of_int 200 / 3 *
              (c * a^2 + c * b^2
               + 4 * (\<Sum>k<nat (200 div 2). c * (a + of_int (1 + 2 * int k) * ((b - a) / of_int 200))^2)
               + 2 * (\<Sum>k<nat (200 div 2 - 1).
                        c * (a + of_int (2 + 2 * int k) * ((b - a) / of_int 200))^2)))"
    by (rule simpsonsRule_fin[where g = "\<lambda>t. c * t^2"]) (simp_all add: g)
  also have "\<dots> = Fin (c * ((b^3 - a^3) / 3))"
    apply (simp only: jsnum.inject)
    apply (subgoal_tac "nat (200 div 2) = 100 \<and> nat (200 div 2 - 1) = 99")
     apply (simp only: s1 s2 sum_sq_arith)
     apply (simp only: b)
     apply (simp add: field_simps power2_eq_square power3_eq_cube)
    apply simp
    done
  finally show ?thesis by (simp add: simpson_n_def)
qed

text \<open>
  A NaN at the left end of the interval stays in the running sum. Negating the integrand
  negates the result, whatever the values are.
\<close>

lemma simpson_loop_NaN: "simpson_loop w func a h m i NaN = NaN"
proof (induction w func a h m i NaN rule: simpson_loop.induct)
  case (1 w func a h m i)
  then show ?case by (subst simpson_loop.simps) simp
qed

lemma simpsonsRule_NaN_at_a: "func (Fin a) = NaN \<Longrightarrow> simpsonsRule func a b n = NaN"
  unfolding simpsonsRule_def Let_def by (simp add: simpson_loop_NaN)

lemma jneg_jadd: "jadd (jneg x) (jneg y) = jneg (jadd x y)"
  by (cases x; cases y) simp_all

lemma jmul_jneg_right: "jmul x (jneg y) = jneg (jmul x y)"
  by (cases x; cases y) simp_all

lemma simpson_loop_neg:
  "simpson_loop w (\<lambda>x. jneg (g x)) a h m i (jneg acc) = jneg (simpson_loop w g a h m i acc)"
proof (induction w g a h m i acc rule: simpson_loop.induct)
  case (1 w func a h m i acc)
  show ?case
  proof (cases "i < m")
    case True
    then show ?thesis
      using "1.IH"[OF True]
      by (subst simpson_loop.simps, subst (2) simpson_loop.simps)
         (simp add: jneg_jadd jmul_jneg_right)
  next
    case False
    then show ?thesis by (simp add: simpson_loop.simps)
  qed
qed

lemma simpsonsRule_neg:
  "simpsonsRule (\<lambda>x. jneg (g x)) a b n = jneg (simpsonsRule g a b n)"
  unfolding simpsonsRule_def Let_def
  by (simp only: jneg_jadd simpson_loop_neg jmul_jneg_right)

lemma innerProduct_neg:
  "innerProduct f1 (Neg (Paren f2)) interval = jneg (innerProduct f1 f2 interval)"
proof -
  have "(\<lambda>x. evaluate (Mul (Paren f1) (Paren (Neg (Paren f2)))) x)
        = (\<lambda>x. jneg (evaluate (Mul (Paren f1) (Paren f2)) x))"
    by (simp add: jmul_jneg_right)
  then show ?thesis
    unfolding innerProduct_def integrate_node_def by (simp only: simpsonsRule_neg)
qed

section \<open>The angle: range, Null and NaN\<close>











lemma flipped_not_neg: "\<not> jlt (if jlt ip (Fin 0) then jneg ip else ip) (Fin 0)"
  by (cases ip) simp_all



lemma calculateAngle_cases:
  fixes f1_orig f2_orig isUnitary interval ensureAcute
  defines "f1 \<equiv> (if isUnitary then Div (Paren f1_orig) (Const (norm_of f1_orig interval)) else f1_orig)"
    and "f2u \<equiv> (if isUnitary then Div (Paren f2_orig) (Const (norm_of f2_orig interval)) else f2_orig)"
  defines "ip \<equiv> innerProduct f1 f2u interval"
  defines "flip \<equiv> (ensureAcute \<and> jlt ip (Fin 0))"
  defines "f2 \<equiv> (if flip then Neg (Paren f2u) else f2u)"
    and "ip' \<equiv> (if flip then jneg ip else ip)"
  shows "calculateAngle f1_orig f2_orig isUnitary interval ensureAcute =
     (if isUnitary \<and> (norm_of f1_orig interval = Fin 0 \<or> norm_of f2_orig interval = Fin 0)
      then \<lparr>angle = None, f1_final = f1_orig, f2_final = f2_orig\<rparr>
      else if norm_of f1 interval = Fin 0 \<or> norm_of f2 interval = Fin 0
      then \<lparr>angle = None, f1_final = f1, f2_final = f2\<rparr>
      else \<lparr>angle = Some (angleDeg ip' (norm_of f1 interval) (norm_of f2 interval)),
            f1_final = f1, f2_final = f2\<rparr>)"
  unfolding calculateAngle_def Let_def f1_def f2u_def ip_def flip_def f2_def ip'_def
  by (rule refl)

subsection \<open>The functions \<open>x\<close> and \<open>-x\<close> on \<open>[-1,1]\<close>\<close>

lemma ip_x_negx: "innerProduct Var (Neg Var) (- 1, 1) = Fin (- (2 / 3))"
proof -
  have "simpsonsRule (evaluate (Mul (Paren Var) (Paren (Neg Var)))) (- 1) 1 simpson_n
          = Fin (- 1 * ((1 ^ 3 - (- 1) ^ 3) / 3))"
    by (rule simpson_square) (simp add: power2_eq_square)
  then show ?thesis by (simp only: innerProduct_def integrate_node_def fst_conv snd_conv) simp
qed

lemma ip_x_negnegx: "innerProduct Var (Neg (Paren (Neg Var))) (- 1, 1) = Fin (2 / 3)"
proof -
  have "simpsonsRule (evaluate (Mul (Paren Var) (Paren (Neg (Paren (Neg Var)))))) (- 1) 1
          simpson_n = Fin (1 * ((1 ^ 3 - (- 1) ^ 3) / 3))"
    by (rule simpson_square) (simp add: power2_eq_square)
  then show ?thesis by (simp only: innerProduct_def integrate_node_def fst_conv snd_conv) simp
qed

lemma normSq_x: "normSq Var (- 1, 1) = Fin (2 / 3)"
proof -
  have "simpsonsRule (evaluate (Pow (Paren Var) 2)) (- 1) 1 simpson_n = Fin (1 * ((1 ^ 3 - (- 1) ^ 3) / 3))"
    by (rule simpson_square) simp
  then show ?thesis by (simp only: normSq_def integrate_node_def fst_conv snd_conv) simp
qed

lemma normSq_negx: "normSq (Neg Var) (- 1, 1) = Fin (2 / 3)"
proof -
  have "simpsonsRule (evaluate (Pow (Paren (Neg Var)) 2)) (- 1) 1 simpson_n
          = Fin (1 * ((1 ^ 3 - (- 1) ^ 3) / 3))"
    by (rule simpson_square) simp
  then show ?thesis by (simp only: normSq_def integrate_node_def fst_conv snd_conv) simp
qed

lemma normSq_negnegx: "normSq (Neg (Paren (Neg Var))) (- 1, 1) = Fin (2 / 3)"
proof -
  have "simpsonsRule (evaluate (Pow (Paren (Neg (Paren (Neg Var)))) 2)) (- 1) 1 simpson_n
          = Fin (1 * ((1 ^ 3 - (- 1) ^ 3) / 3))"
    by (rule simpson_square) simp
  then show ?thesis by (simp only: normSq_def integrate_node_def fst_conv snd_conv) simp
qed

lemma angleDeg_opposite: "angleDeg (Fin (- (2 / 3))) (Fin (sqrt (2 / 3))) (Fin (sqrt (2 / 3))) = Fin 180"
  unfolding angleDeg_def Let_def by simp

lemma angleDeg_same: "angleDeg (Fin (2 / 3)) (Fin (sqrt (2 / 3))) (Fin (sqrt (2 / 3))) = Fin 0"
  unfolding angleDeg_def Let_def by simp

lemma norm_x: "norm_of Var (- 1, 1) = Fin (sqrt (2 / 3))"
  by (simp add: norm_of_def normSq_x)

lemma norm_negx: "norm_of (Neg Var) (- 1, 1) = Fin (sqrt (2 / 3))"
  by (simp add: norm_of_def normSq_negx)

lemma norm_negnegx: "norm_of (Neg (Paren (Neg Var))) (- 1, 1) = Fin (sqrt (2 / 3))"
  by (simp add: norm_of_def normSq_negnegx)

lemma calc_x_negx:
  "calculateAngle Var (Neg Var) False (- 1, 1) False
     = \<lparr>angle = Some (Fin 180), f1_final = Var, f2_final = Neg Var\<rparr>"
  unfolding calculateAngle_def Let_def
  by (simp add: norm_x norm_negx ip_x_negx angleDeg_opposite)

lemma calc_x_negx_acute:
  "calculateAngle Var (Neg Var) False (- 1, 1) True
     = \<lparr>angle = Some (Fin 0), f1_final = Var, f2_final = Neg (Paren (Neg Var))\<rparr>"
  unfolding calculateAngle_def Let_def
  by (simp add: norm_x norm_negx norm_negnegx ip_x_negx angleDeg_same)

text \<open>
  C3. For \<open>f1(x) = x\<close> and \<open>f2(x) = -x\<close> on \<open>[-1,1]\<close>, not unitary: the inner product is
  \<open>-2/3\<close>, each norm is \<open>sqrt(2/3)\<close>, the cosine is \<open>-1\<close> and the angle is 180 degrees.
  With \<open>ensureAcute\<close> the second function is returned negated, \<open>-(-x)\<close>, which evaluates
  as \<open>x\<close> does, and the angle is 0 degrees.
\<close>

theorem angle_x_minus_x:
  "innerProduct Var (Neg Var) (- 1, 1) = Fin (- (2 / 3))
   \<and> norm_of Var (- 1, 1) = Fin (sqrt (2 / 3))
   \<and> norm_of (Neg Var) (- 1, 1) = Fin (sqrt (2 / 3))
   \<and> jdiv (Fin (- (2 / 3))) (jmul (Fin (sqrt (2 / 3))) (Fin (sqrt (2 / 3)))) = Fin (- 1)
   \<and> calculateAngle Var (Neg Var) False (- 1, 1) False
       = \<lparr>angle = Some (Fin 180), f1_final = Var, f2_final = Neg Var\<rparr>
   \<and> calculateAngle Var (Neg Var) False (- 1, 1) True
       = \<lparr>angle = Some (Fin 0), f1_final = Var, f2_final = Neg (Paren (Neg Var))\<rparr>
   \<and> evaluate (Neg (Paren (Neg Var))) x = evaluate Var x"
proof -
  have c: "jdiv (Fin (- (2 / 3))) (jmul (Fin (sqrt (2 / 3))) (Fin (sqrt (2 / 3)))) = Fin (- 1)"
    by simp
  have e: "evaluate (Neg (Paren (Neg Var))) x = evaluate Var x"
    by (cases x) simp_all
  from ip_x_negx norm_x norm_negx c calc_x_negx calc_x_negx_acute e show ?thesis by blast
qed

subsection \<open>A NaN reaches the caller\<close>

text \<open>
  \<open>x / x\<close> is \<open>0 / 0\<close> at the left end of \<open>[0,1]\<close>. The integrals over it are NaN, no
  norm is equal to 0, and the angle that comes back is NaN.
\<close>

lemma ip_nan: "innerProduct (Div Var Var) Var (0, 1) = NaN"
  unfolding innerProduct_def integrate_node_def
  by (simp add: simpsonsRule_NaN_at_a)

lemma norm_nan: "norm_of (Div Var Var) (0, 1) = NaN"
  unfolding norm_of_def normSq_def integrate_node_def
  by (simp add: simpsonsRule_NaN_at_a)

lemma norm_x_01: "norm_of Var (0, 1) = Fin (sqrt (1 / 3))"
proof -
  have "simpsonsRule (evaluate (Pow (Paren Var) 2)) 0 1 simpson_n
          = Fin (1 * ((1 ^ 3 - 0 ^ 3) / 3))"
    by (rule simpson_square) simp
  then show ?thesis
    by (simp only: norm_of_def normSq_def integrate_node_def fst_conv snd_conv) simp
qed

lemma angleDeg_NaN: "angleDeg NaN x y = NaN"
  unfolding angleDeg_def Let_def by simp

lemma calc_nan:
  "calculateAngle (Div Var Var) Var False (0, 1) ensureAcute
     = \<lparr>angle = Some NaN, f1_final = Div Var Var, f2_final = Var\<rparr>"
  unfolding calculateAngle_def Let_def
  by (simp add: ip_nan norm_nan norm_x_01 angleDeg_NaN)






lemma norm_zero_01: "norm_of (Const (Fin 0)) (0, 1) = Fin 0"
proof -
  have "simpsonsRule (evaluate (Pow (Paren (Const (Fin 0))) 2)) 0 1 simpson_n
          = Fin (0 * ((1 ^ 3 - 0 ^ 3) / 3))"
    by (rule simpson_square) simp
  then show ?thesis
    by (simp only: norm_of_def normSq_def integrate_node_def fst_conv snd_conv) simp
qed

lemma calc_nan_zero:
  "angle (calculateAngle (Div Var Var) (Const (Fin 0)) False (0, 1) False) = None"
  unfolding calculateAngle_def Let_def
  by (simp add: norm_zero_01)




text \<open>
  C5. With \<open>ensureAcute\<close>, when \<open>calculateAngle\<close> returns an angle that is neither Null
  nor NaN, the inner product of the two returned expressions, taken with the same
  integrator, is at least 0. Where the inner product of the (normalised) functions is
  negative, the second function is returned negated, and the negated inner product is
  the one that enters the angle; it is also the inner product of the returned pair.
\<close>

theorem acute_inner_product_nonneg:
  fixes f1 f2 :: expr and isUnitary :: bool and interval :: "real \<times> real"
  defines "r \<equiv> calculateAngle f1 f2 isUnitary interval True"
    and "g1 \<equiv> (if isUnitary then Div (Paren f1) (Const (norm_of f1 interval)) else f1)"
    and "g2 \<equiv> (if isUnitary then Div (Paren f2) (Const (norm_of f2 interval)) else f2)"
  defines "ip \<equiv> innerProduct g1 g2 interval"
  assumes th: "angle r = Some th" and nn: "th \<noteq> NaN"
  shows "jge (innerProduct (f1_final r) (f2_final r) interval) (Fin 0)
       \<and> f1_final r = g1
       \<and> f2_final r = (if jlt ip (Fin 0) then Neg (Paren g2) else g2)
       \<and> innerProduct (f1_final r) (f2_final r) interval
           = (if jlt ip (Fin 0) then jneg ip else ip)
       \<and> th = angleDeg (if jlt ip (Fin 0) then jneg ip else ip)
                (norm_of (f1_final r) interval) (norm_of (f2_final r) interval)"
proof -
  define g2' where "g2' = (if jlt ip (Fin 0) then Neg (Paren g2) else g2)"
  define ip' where "ip' = (if jlt ip (Fin 0) then jneg ip else ip)"
  have r: "r = \<lparr>angle = Some (angleDeg ip' (norm_of g1 interval) (norm_of g2' interval)),
                f1_final = g1, f2_final = g2'\<rparr>"
    using th unfolding r_def calculateAngle_cases g1_def g2_def ip_def g2'_def ip'_def
    by (simp split: if_splits)
  have t: "th = angleDeg ip' (norm_of g1 interval) (norm_of g2' interval)"
    using th r by simp
  have "ip' \<noteq> NaN" using nn t angleDeg_NaN by auto
  moreover have "\<not> jlt ip' (Fin 0)" unfolding ip'_def by (rule flipped_not_neg)
  ultimately have ge: "jge ip' (Fin 0)" by (simp add: jge_def)
  have i: "innerProduct g1 g2' interval = ip'"
    unfolding g2'_def ip'_def by (simp add: innerProduct_neg ip_def)
  show ?thesis
    using r t ge i unfolding g2'_def ip'_def by simp
qed

theorem acute_inner_product_nonneg_witness:
  "angle (calculateAngle Var (Neg Var) False (- 1, 1) True) = Some (Fin 0)
   \<and> Fin 0 \<noteq> NaN
   \<and> jge (innerProduct (f1_final (calculateAngle Var (Neg Var) False (- 1, 1) True))
            (f2_final (calculateAngle Var (Neg Var) False (- 1, 1) True)) (- 1, 1)) (Fin 0)"
proof -
  have a: "angle (calculateAngle Var (Neg Var) False (- 1, 1) True) = Some (Fin 0)"
    by (simp add: calc_x_negx_acute)
  have n: "Fin 0 \<noteq> NaN" by simp
  from acute_inner_product_nonneg[OF a n] a n show ?thesis by blast
qed

text \<open>
  A result that is not Null but NaN is outside this: for \<open>f1 = x / x\<close> and \<open>f2 = x\<close> on
  \<open>[0,1]\<close> the inner product of the returned pair is NaN, and NaN is not at least 0.
\<close>

theorem acute_NaN_counterexample:
  "angle (calculateAngle (Div Var Var) Var False (0, 1) True) \<noteq> None
   \<and> \<not> jge (innerProduct (f1_final (calculateAngle (Div Var Var) Var False (0, 1) True))
               (f2_final (calculateAngle (Div Var Var) Var False (0, 1) True)) (0, 1)) (Fin 0)"
  by (simp add: calc_nan ip_nan jge_def)

section \<open>The score\<close>

lemma score_Fin:
  "score (Fin a) (Fin g) = Fin (100 * (max 0 (1 - \<bar>a - g\<bar> / 180)) ^ 3)"
  unfolding score_def diff_of_def jsub_def
  by (simp add: max_def)

lemma score_strict:
  fixes d1 d2 :: real
  assumes "d1 < d2" "d2 \<le> 180"
  shows "100 * (max 0 (1 - d2 / 180)) ^ 3 < 100 * (max 0 (1 - d1 / 180)) ^ (3::nat)"
proof -
  have "0 \<le> 1 - d2 / 180" using assms by simp
  moreover have "1 - d2 / 180 < 1 - d1 / 180" using assms by simp
  ultimately have "(1 - d2 / 180) ^ 3 < (1 - d1 / 180) ^ 3"
    by (intro power_strict_mono) simp_all
  moreover have "max 0 (1 - d2 / 180) = 1 - d2 / 180" "max 0 (1 - d1 / 180) = 1 - d1 / 180"
    using assms by simp_all
  ultimately show ?thesis by simp
qed

lemma score_range:
  fixes d :: real
  shows "0 \<le> 100 * (max 0 (1 - \<bar>d\<bar> / 180)) ^ (3::nat)" "100 * (max 0 (1 - \<bar>d\<bar> / 180)) ^ (3::nat) \<le> 100"
proof -
  have m: "0 \<le> max 0 (1 - \<bar>d\<bar> / 180)" "max 0 (1 - \<bar>d\<bar> / 180) \<le> 1" by simp_all
  show "0 \<le> 100 * (max 0 (1 - \<bar>d\<bar> / 180)) ^ (3::nat)" using m by simp
  have "(max 0 (1 - \<bar>d\<bar> / 180)) ^ 3 \<le> 1" using m by (intro power_le_one)
  then show "100 * (max 0 (1 - \<bar>d\<bar> / 180)) ^ (3::nat) \<le> 100" by simp
qed

lemma guessAccepted_Fin:
  "guessAccepted acute (Fin g) = (0 \<le> g \<and> g \<le> (if acute then 90 else 180))"
  unfolding guessAccepted_def jge_def Let_def by auto

lemma diff_of_Fin: "diff_of (Fin a) (Fin g) = Fin \<bar>a - g\<bar>"
  unfolding diff_of_def jsub_def by simp

lemma accepted_diff:
  assumes "0 \<le> a" "a \<le> 180" "guessAccepted acute (Fin g)"
  shows "\<bar>a - g\<bar> \<le> 180"
  using assms by (auto simp: guessAccepted_Fin split: if_splits)

lemma score_NaN: "score NaN guess = NaN"
  unfolding score_def diff_of_def by (cases guess) (simp_all add: jsub_def)

text \<open>
  C6. For every finite angle and every
  guess the score is \<open>100 max(0, 1 - diff/180)\<^sup>3\<close> with \<open>diff = |actual - guess|\<close>; it lies
  between 0 and 100 and is 0 whenever the difference is at least 180. For an angle
  between 0 and 180 degrees and a guess that \<open>handleGuessChange\<close> accepts the difference
  is at most 180, and up to 180 a larger difference has a strictly smaller score. A guess
  of 0 for the angle 0 scores 100, a guess of 180 for the angle 0 scores 0. For the angle
  NaN, which a round can have, the score of every guess is NaN.
\<close>

theorem score_properties:
  "diff_of (Fin a) (Fin g) = Fin \<bar>a - g\<bar>
   \<and> score (Fin a) (Fin g) = Fin (100 * (max 0 (1 - \<bar>a - g\<bar> / 180)) ^ 3)
   \<and> (\<exists>s. score (Fin a) (Fin g) = Fin s \<and> 0 \<le> s \<and> s \<le> 100)
   \<and> (0 \<le> a \<and> a \<le> 180 \<and> guessAccepted acute (Fin g) \<longrightarrow> \<bar>a - g\<bar> \<le> 180)
   \<and> (\<bar>a - g\<bar> < \<bar>a' - g'\<bar> \<and> \<bar>a' - g'\<bar> \<le> 180 \<longrightarrow>
        (\<exists>s s'. score (Fin a) (Fin g) = Fin s \<and> score (Fin a') (Fin g') = Fin s' \<and> s' < s))
   \<and> (180 \<le> \<bar>a - g\<bar> \<longrightarrow> score (Fin a) (Fin g) = Fin 0)
   \<and> score (Fin 0) (Fin 0) = Fin 100
   \<and> score (Fin 0) (Fin 180) = Fin 0
   \<and> score NaN guess = NaN"
proof -
  have 1: "\<exists>s. score (Fin a) (Fin g) = Fin s \<and> 0 \<le> s \<and> s \<le> 100"
    using score_range[of "a - g"] by (simp add: score_Fin)
  have 2: "\<exists>s s'. score (Fin a) (Fin g) = Fin s \<and> score (Fin a') (Fin g') = Fin s' \<and> s' < s"
    if "\<bar>a - g\<bar> < \<bar>a' - g'\<bar>" "\<bar>a' - g'\<bar> \<le> 180"
    using score_strict[OF that] by (simp add: score_Fin)
  have 3: "score (Fin a) (Fin g) = Fin 0" if "180 \<le> \<bar>a - g\<bar>"
    using that by (simp add: score_Fin)
  have 4: "score (Fin 0) (Fin 0) = Fin 100" "score (Fin 0) (Fin 180) = Fin 0"
    by (simp_all add: score_Fin)
  from diff_of_Fin[of a g] score_Fin[of a g] 1 2 3 4 accepted_diff[of a acute g]
    score_NaN[of guess]
  show ?thesis by blast
qed

theorem score_properties_witness:
  "(0::real) \<le> 0 \<and> (0::real) \<le> 180 \<and> guessAccepted False (Fin 180) \<and> \<bar>0 - (180::real)\<bar> \<le> 180
   \<and> \<bar>0 - 0\<bar> < \<bar>0 - (180::real)\<bar>
   \<and> (\<exists>s s'. score (Fin 0) (Fin 0) = Fin s \<and> score (Fin 0) (Fin 180) = Fin s' \<and> s' < s)
   \<and> (180::real) \<le> \<bar>0 - 180\<bar> \<and> score (Fin 0) (Fin 180) = Fin 0"
proof -
  have h: "(0::real) \<le> 0" "(0::real) \<le> 180" "guessAccepted False (Fin 180)"
    by (simp_all add: guessAccepted_Fin)
  have lt: "\<bar>0 - 0\<bar> < \<bar>0 - (180::real)\<bar>" and ge: "(180::real) \<le> \<bar>0 - 180\<bar>"
    and le: "\<bar>0 - (180::real)\<bar> \<le> 180" by simp_all
  from score_properties[of 0 0 False 0 180 "Fin 0"] score_properties[of 0 180 False 0 180 "Fin 0"]
    h lt ge le
  show ?thesis by blast
qed

section \<open>The scaling logic\<close>

lemma max_abs_Cons:
  "max_abs (y # ys) = (if isFinite y then jmax (jabs y) (max_abs ys) else max_abs ys)"
  by (simp add: max_abs_def)

lemma max_abs_Nil: "max_abs [] = NInf"
  by (simp add: max_abs_def)

lemma max_abs_cases: "max_abs ys = NInf \<or> (\<exists>m. max_abs ys = Fin m \<and> 0 \<le> m)"
proof (induction ys)
  case Nil
  then show ?case by (simp add: max_abs_Nil)
next
  case (Cons y ys)
  show ?case
  proof (cases y)
    case (Fin r)
    from Cons.IH show ?thesis
    proof
      assume "max_abs ys = NInf"
      then have "max_abs (y # ys) = Fin \<bar>r\<bar>" by (simp add: max_abs_Cons Fin)
      then show ?thesis by simp
    next
      assume "\<exists>m. max_abs ys = Fin m \<and> 0 \<le> m"
      then obtain m where m: "max_abs ys = Fin m" "0 \<le> m" by blast
      then have "max_abs (y # ys) = Fin (if \<bar>r\<bar> < m then m else \<bar>r\<bar>)"
        by (simp add: max_abs_Cons Fin)
      moreover have "0 \<le> (if \<bar>r\<bar> < m then m else \<bar>r\<bar>)" using m by simp
      ultimately show ?thesis by blast
    qed
  next
    case PInf
    then show ?thesis using Cons.IH by (simp add: max_abs_Cons)
  next
    case NInf
    then show ?thesis using Cons.IH by (simp add: max_abs_Cons)
  next
    case NaN
    then show ?thesis using Cons.IH by (simp add: max_abs_Cons)
  qed
qed

lemma isFinite_scaled: "0 < k \<Longrightarrow> isFinite (jmul y (Fin k)) = isFinite y"
  by (cases y) simp_all

lemma jmax_scaled:
  assumes "0 < k" and "M = NInf \<or> (\<exists>m. M = Fin m \<and> 0 \<le> m)"
  shows "jmax (jabs (jmul (Fin r) (Fin k))) (jmul M (Fin k)) = jmul (jmax (jabs (Fin r)) M) (Fin k)"
proof (rule disjE[OF assms(2)])
  assume "M = NInf"
  then show ?thesis using assms(1) by (simp add: abs_mult)
next
  assume "\<exists>m. M = Fin m \<and> 0 \<le> m"
  then obtain m where m: "M = Fin m" by blast
  have "\<bar>r * k\<bar> = \<bar>r\<bar> * k" using assms(1) by (simp add: abs_mult)
  moreover have "(\<bar>r\<bar> * k < m * k) = (\<bar>r\<bar> < m)" using assms(1) by simp
  ultimately show ?thesis unfolding m by simp
qed

lemma max_abs_scaled:
  assumes k: "0 < k"
  shows "max_abs (map (\<lambda>y. jmul y (Fin k)) ys) = jmul (max_abs ys) (Fin k)"
proof (induction ys)
  case Nil
  then show ?case using k by (simp add: max_abs_Nil)
next
  case (Cons y ys)
  show ?case
  proof (cases y)
    case (Fin r)
    have "max_abs (map (\<lambda>y. jmul y (Fin k)) (y # ys))
          = jmax (jabs (jmul (Fin r) (Fin k))) (jmul (max_abs ys) (Fin k))"
      unfolding Fin list.map max_abs_Cons Cons.IH by simp
    also have "\<dots> = jmul (jmax (jabs (Fin r)) (max_abs ys)) (Fin k)"
      by (rule jmax_scaled[OF k max_abs_cases])
    also have "\<dots> = jmul (max_abs (y # ys)) (Fin k)"
      unfolding Fin max_abs_Cons by simp
    finally show ?thesis .
  next
    case PInf
    then show ?thesis using k Cons.IH by (simp add: max_abs_Cons)
  next
    case NInf
    then show ?thesis using k Cons.IH by (simp add: max_abs_Cons)
  next
    case NaN
    then show ?thesis using k Cons.IH by (simp add: max_abs_Cons)
  qed
qed

lemma max_abs_y_scaled:
  assumes k: "0 < k"
  shows "max_abs_y (Mul (Paren f) (Const (Fin k))) I = jmul (max_abs_y f I) (Fin k)"
proof -
  have e: "(\<lambda>x. evaluate (Mul (Paren f) (Const (Fin k))) x) = (\<lambda>y. jmul y (Fin k)) \<circ> (\<lambda>x. evaluate f x)"
    by (rule ext) simp
  show ?thesis
    unfolding max_abs_y_def
    by (subst e, subst map_map[symmetric], rule max_abs_scaled[OF k])
qed

lemma balance_arith:
  fixes m1 m2 :: real
  assumes "0 < m2" "m2 < m1" "5 < m1 / m2"
  defines "k \<equiv> real_of_int \<lceil>m1 / m2 / 5\<rceil>"
  shows "0 < k" "m1 \<le> 5 * (m2 * k)" "m2 * k \<le> 5 * m1"
proof -
  have k1: "m1 / m2 / 5 \<le> k" unfolding k_def by (rule le_of_int_ceiling)
  have k2: "k < m1 / m2 / 5 + 1" unfolding k_def by linarith
  have "0 < m1 / m2 / 5" using assms by simp
  then show "0 < k" using k1 by linarith
  have "m1 / 5 \<le> m2 * k"
    using k1 assms(1) by (simp add: field_simps)
  then show "m1 \<le> 5 * (m2 * k)" by simp
  have "m2 * k < m2 * (m1 / m2 / 5 + 1)"
    using k2 assms(1) by (intro mult_strict_left_mono)
  also have "\<dots> = m1 / 5 + m2" using assms(1) by (simp add: field_simps)
  finally show "m2 * k \<le> 5 * m1" using assms by (simp add: field_simps)
qed

text \<open>
  C7. After the scaling logic, the largest absolute finite values of the two functions at
  the 100 sample points, when both are positive, differ by a factor of 5 at most.
\<close>

theorem scaling_balances:
  assumes s: "scaling f1 f2 I = (g1, g2)"
    and m: "max_abs_y g1 I = Fin m1" "max_abs_y g2 I = Fin m2" and pos: "0 < m1" "0 < m2"
  shows "m1 \<le> 5 * m2 \<and> m2 \<le> 5 * m1"
proof (cases "jlt (Fin 0) (max_abs_y f1 I) \<and> jlt (Fin 0) (max_abs_y f2 I)")
  case False
  have "scaling f1 f2 I = (f1, f2)"
    unfolding scaling_def Let_def by (rule if_not_P[OF False])
  then have "g1 = f1" "g2 = f2" using s by simp_all
  with m pos False show ?thesis by simp
next
  case True
  obtain a where a: "max_abs_y f1 I = Fin a" "0 < a"
    using True max_abs_cases[of "map (\<lambda>x. evaluate f1 x) (x_vals_for_scaling I)"]
    by (auto simp: max_abs_y_def)
  obtain b where b: "max_abs_y f2 I = Fin b" "0 < b"
    using True max_abs_cases[of "map (\<lambda>x. evaluate f2 x) (x_vals_for_scaling I)"]
    by (auto simp: max_abs_y_def)
  show ?thesis
  proof (cases "b < a")
    case ba: True
    show ?thesis
    proof (cases "5 < a / b")
      case True
      define k where "k = real_of_int \<lceil>a / b / 5\<rceil>"
      have k: "0 < k" "a \<le> 5 * (b * k)" "b * k \<le> 5 * a"
        unfolding k_def using balance_arith[OF b(2) ba True] by simp_all
      have "g1 = f1" "g2 = Mul (Paren f2) (Const (Fin k))"
        using s a b ba True by (simp_all add: scaling_def Let_def k_def)
      then have "m1 = a" "m2 = b * k"
        using m a b max_abs_y_scaled[OF k(1), of f2 I] by simp_all
      then show ?thesis using k by simp
    next
      case False
      then have "g1 = f1" "g2 = f2"
        using s a b ba by (simp_all add: scaling_def Let_def)
      then have "m1 = a" "m2 = b" using m a b by simp_all
      then show ?thesis using False ba b by (simp add: field_simps)
    qed
  next
    case ab: False
    show ?thesis
    proof (cases "5 < b / a")
      case True
      have lt: "a < b" using True a by (simp add: field_simps)
      define k where "k = real_of_int \<lceil>b / a / 5\<rceil>"
      have k: "0 < k" "b \<le> 5 * (a * k)" "a * k \<le> 5 * b"
        unfolding k_def using balance_arith[OF a(2) lt True] by simp_all
      have "g1 = Mul (Paren f1) (Const (Fin k))" "g2 = f2"
        using s a b ab True by (simp_all add: scaling_def Let_def k_def)
      then have "m1 = a * k" "m2 = b"
        using m a b max_abs_y_scaled[OF k(1), of f1 I] by simp_all
      then show ?thesis using k by simp
    next
      case False
      then have "g1 = f1" "g2 = f2"
        using s a b ab by (simp_all add: scaling_def Let_def)
      then have "m1 = a" "m2 = b" using m a b by simp_all
      then show ?thesis using False ab a by (simp add: field_simps)
    qed
  qed
qed

text \<open>
  The primitives \<open>x\<close> and \<open>x^4\<close> on \<open>[-5,5]\<close>: the peaks are 5 and 625, the ratio is 125,
  and \<open>x\<close> is multiplied by 25.
\<close>

lemma max_abs_ge:
  assumes "Fin r \<in> set ys"
  shows "\<exists>v. max_abs ys = Fin v \<and> \<bar>r\<bar> \<le> v"
  using assms
proof (induction ys)
  case Nil
  then show ?case by simp
next
  case (Cons y ys)
  show ?case
  proof (cases "y = Fin r")
    case True
    from max_abs_cases[of ys] show ?thesis
    proof
      assume "max_abs ys = NInf"
      then show ?thesis using True by (simp add: max_abs_Cons)
    next
      assume "\<exists>m. max_abs ys = Fin m \<and> 0 \<le> m"
      then obtain m where "max_abs ys = Fin m" by blast
      then show ?thesis using True by (simp add: max_abs_Cons)
    qed
  next
    case False
    then have "Fin r \<in> set ys" using Cons.prems by simp
    then obtain v where v: "max_abs ys = Fin v" "\<bar>r\<bar> \<le> v" using Cons.IH by blast
    then show ?thesis by (cases y) (simp_all add: max_abs_Cons)
  qed
qed

lemma max_abs_le:
  assumes "\<And>y. y \<in> set ys \<Longrightarrow> \<exists>r. y = Fin r \<and> \<bar>r\<bar> \<le> m"
  shows "max_abs ys = NInf \<or> (\<exists>v. max_abs ys = Fin v \<and> v \<le> m)"
  using assms
proof (induction ys)
  case Nil
  then show ?case by (simp add: max_abs_Nil)
next
  case (Cons y ys)
  obtain r where r: "y = Fin r" "\<bar>r\<bar> \<le> m" using Cons.prems[of y] by auto
  have "max_abs ys = NInf \<or> (\<exists>v. max_abs ys = Fin v \<and> v \<le> m)"
    using Cons.IH Cons.prems by simp
  then show ?case
  proof
    assume "max_abs ys = NInf"
    then show ?thesis using r by (simp add: max_abs_Cons)
  next
    assume "\<exists>v. max_abs ys = Fin v \<and> v \<le> m"
    then obtain v where "max_abs ys = Fin v" "v \<le> m" by blast
    then show ?thesis using r by (simp add: max_abs_Cons)
  qed
qed

lemma max_abs_eq:
  assumes "\<And>y. y \<in> set ys \<Longrightarrow> \<exists>r. y = Fin r \<and> \<bar>r\<bar> \<le> m"
    and "Fin r \<in> set ys" "\<bar>r\<bar> = m"
  shows "max_abs ys = Fin m"
  using max_abs_le[of ys m, OF assms(1)] max_abs_ge[OF assms(2)] assms(3) by auto

lemma sample_bound:
  assumes "i < 100"
  shows "\<bar>- 5 + real i / 99 * (5 - (- 5))\<bar> \<le> 5"
proof -
  have "real i \<le> 99" using assms by simp
  then show ?thesis by (simp add: abs_le_iff field_simps)
qed

lemma max_abs_y_x: "max_abs_y Var (- 5, 5) = Fin 5"
  unfolding max_abs_y_def x_vals_for_scaling_def
proof (rule max_abs_eq[where r = "- 5"])
  fix y assume "y \<in> set (map (\<lambda>x. evaluate Var x) (map (\<lambda>i. Fin (fst (- 5, 5) + real i / 99 * (snd (- 5, 5) - fst (- 5, 5)))) [0..<100]))"
  then obtain i where i: "i < 100" "y = Fin (- 5 + real i / 99 * (5 - (- 5)))" by auto
  then show "\<exists>r. y = Fin r \<and> \<bar>r\<bar> \<le> 5" using sample_bound[OF i(1)] by blast
next
  have "Fin (- 5) = evaluate Var (Fin (fst (- 5, 5) + real (0::nat) / 99 * (snd (- 5, 5) - fst (- 5, 5))))"
    by simp
  then show "Fin (- 5) \<in> set (map (\<lambda>x. evaluate Var x) (map (\<lambda>i. Fin (fst (- 5, 5) + real i / 99 * (snd (- 5, 5) - fst (- 5, 5)))) [0..<100]))"
    by (simp only: set_map image_image) (rule image_eqI[where x = 0], simp_all)
qed simp

lemma max_abs_y_x4: "max_abs_y (Pow Var 4) (- 5, 5) = Fin 625"
  unfolding max_abs_y_def x_vals_for_scaling_def
proof (rule max_abs_eq[where r = "625"])
  fix y assume "y \<in> set (map (\<lambda>x. evaluate (Pow Var 4) x) (map (\<lambda>i. Fin (fst (- 5, 5) + real i / 99 * (snd (- 5, 5) - fst (- 5, 5)))) [0..<100]))"
  then obtain i where i: "i < 100" "y = Fin ((- 5 + real i / 99 * (5 - (- 5))) ^ 4)" by auto
  have "\<bar>(- 5 + real i / 99 * (5 - (- 5))) ^ 4\<bar> \<le> 5 ^ 4"
    unfolding power_abs by (rule power_mono[OF sample_bound[OF i(1)]]) simp
  then show "\<exists>r. y = Fin r \<and> \<bar>r\<bar> \<le> 625" using i by auto
next
  have "Fin 625 = evaluate (Pow Var 4) (Fin (fst (- 5, 5) + real (0::nat) / 99 * (snd (- 5, 5) - fst (- 5, 5))))"
    by simp
  then show "Fin 625 \<in> set (map (\<lambda>x. evaluate (Pow Var 4) x) (map (\<lambda>i. Fin (fst (- 5, 5) + real i / 99 * (snd (- 5, 5) - fst (- 5, 5)))) [0..<100]))"
    by (simp only: set_map image_image) (rule image_eqI[where x = 0], simp_all)
qed simp

lemma scaling_x_x4:
  "scaling Var (Pow Var 4) (- 5, 5) = (Mul (Paren Var) (Const (Fin 25)), Pow Var 4)"
  unfolding scaling_def Let_def by (simp add: max_abs_y_x max_abs_y_x4)

theorem scaling_balances_witness:
  "scaling Var (Pow Var 4) (- 5, 5) = (Mul (Paren Var) (Const (Fin 25)), Pow Var 4)
   \<and> max_abs_y (Mul (Paren Var) (Const (Fin 25))) (- 5, 5) = Fin 125
   \<and> max_abs_y (Pow Var 4) (- 5, 5) = Fin 625
   \<and> (0::real) < 125 \<and> (0::real) < 625 \<and> (125::real) \<le> 5 * 625 \<and> (625::real) \<le> 5 * 125"
proof -
  have 1: "max_abs_y (Mul (Paren Var) (Const (Fin 25))) (- 5, 5) = Fin 125"
    by (simp add: max_abs_y_scaled max_abs_y_x)
  have 3: "(0::real) < 125" "(0::real) < 625" by simp_all
  from scaling_balances[OF scaling_x_x4 1 max_abs_y_x4 3] scaling_x_x4 1 max_abs_y_x4 3
  show ?thesis by blast
qed

section \<open>The generator\<close>

text \<open>
  For an interval \<open>[a,b]\<close> with \<open>a < b\<close>, \<open>getNewFunctions\<close> hands
  \<open>intervalLimit = max(|a|,|b|)\<close> to the generator, whose last primitive is
  \<open>asin(x / intervalLimit)\<close>. The limit is positive, and for every \<open>x\<close> of the interval
  the argument \<open>x / intervalLimit\<close> lies in \<open>[-1,1]\<close>, so that the primitive, taken alone,
  evaluates to a finite number there.
\<close>

lemma asin_primitive_alone_in_domain:
  assumes "a < b" "a \<le> x" "x \<le> b"
  shows "0 < intervalLimit_of (a, b)
       \<and> - 1 \<le> x / intervalLimit_of (a, b) \<and> x / intervalLimit_of (a, b) \<le> 1
       \<and> last (baseFunctions (intervalLimit_of (a, b)))
           = Fn Asin (Div Var (Const (Fin (intervalLimit_of (a, b)))))
       \<and> evaluate (last (baseFunctions (intervalLimit_of (a, b)))) (Fin x)
           = Fin (arcsin (x / intervalLimit_of (a, b)))"
proof -
  define L where "L = intervalLimit_of (a, b)"
  have L: "0 < L" "\<bar>x\<bar> \<le> L" using assms unfolding L_def intervalLimit_of_def by auto
  then have d: "- 1 \<le> x / L" "x / L \<le> 1" by (simp_all add: field_simps abs_le_iff)
  have "evaluate (last (baseFunctions L)) (Fin x) = Fin (arcsin (x / L))"
    using L d by (simp add: baseFunctions_def)
  then show ?thesis using L d unfolding L_def[symmetric] by (simp add: baseFunctions_def)
qed

subsection \<open>The two retry loops\<close>

lemma round_loop_result:
  assumes "round_loop s u ac I rng = Some y"
  shows "angle (fst y) \<noteq> None"
  by (rule round_loop.raw_induct[where P = "\<lambda>s u ac I rng y. angle (fst y) \<noteq> None", OF _ assms])
     (auto split: option.splits prod.splits if_splits)

lemma redraw_exit:
  "f1 \<noteq> f2 \<Longrightarrow> f1 \<noteq> Neg (Paren f2) \<Longrightarrow> redraw sortRandom L f1 f2 rng = Some (f2, rng)"
  by (subst redraw.simps) simp

lemma redraw_again:
  "f1 = f2 \<or> f1 = Neg (Paren f2) \<Longrightarrow> generateRandomFunction sortRandom L rng = (f2', rng') \<Longrightarrow>
   redraw sortRandom L f1 f2 rng = redraw sortRandom L f1 f2' rng'"
  by (subst redraw.simps) simp

lemma redraw_result:
  assumes "redraw sortRandom L f1 f2 rng = Some y"
  shows "f1 \<noteq> fst y \<and> f1 \<noteq> Neg (Paren (fst y))"
  by (rule redraw.raw_induct[where P = "\<lambda>s L f1 f2 rng y. f1 \<noteq> fst y \<and> f1 \<noteq> Neg (Paren (fst y))",
        OF _ assms])
     (auto split: if_splits prod.splits)

text \<open>
  Where the generator returns the function the loop holds already and leaves the random
  numbers as they were, no iteration changes anything, and the loop does not return.
\<close>

lemma redraw_fixed:
  assumes g: "generateRandomFunction sortRandom L rng = (f, rng)"
  shows "redraw sortRandom L f f rng = None"
proof -
  have "\<not> (s = sortRandom \<and> L' = L \<and> f1 = f \<and> f2 = f \<and> r = rng)"
    if "redraw s L' f1 f2 r = Some y" for s L' f1 f2 r y
  proof (rule redraw.raw_induct[where P = "\<lambda>s L' f1 f2 r y.
          \<not> (s = sortRandom \<and> L' = L \<and> f1 = f \<and> f2 = f \<and> r = rng)", OF _ that])
    fix redraw' s L' f1 f2 r y
    assume IH: "\<And>s L' f1 f2 r y. redraw' s L' f1 f2 r = Some y \<Longrightarrow>
          \<not> (s = sortRandom \<and> L' = L \<and> f1 = f \<and> f2 = f \<and> r = rng)"
      and eq: "(if f1 = f2 \<or> f1 = Neg (Paren f2)
                then case generateRandomFunction s L' r of
                       (f2', rng') \<Rightarrow> redraw' s L' f1 f2' rng'
                else Some (f2, r)) = Some y"
    show "\<not> (s = sortRandom \<and> L' = L \<and> f1 = f \<and> f2 = f \<and> r = rng)"
    proof
      assume a: "s = sortRandom \<and> L' = L \<and> f1 = f \<and> f2 = f \<and> r = rng"
      with eq have "redraw' sortRandom L f f rng = Some y"
        by (simp add: g)
      from IH[OF this] show False by simp
    qed
  qed
  then have "redraw sortRandom L f f rng \<noteq> Some y" for y
    by blast
  then show ?thesis by (meson option.exhaust)
qed

lemma getNewFunctions_fixed:
  assumes g: "generateRandomFunction sortRandom (intervalLimit_of interval) rng = (f, rng)"
  shows "getNewFunctions sortRandom interval rng = None"
  unfolding getNewFunctions_def Let_def
  by (simp add: g redraw_fixed[OF g])

text \<open>
  \<open>Math.random()\<close> returning 0 at every call: whatever the sort does with the zeros it
  takes, every call of the generator returns \<open>-(0.5 * (p))\<close> for the primitive \<open>p\<close> that
  the sort puts first.
\<close>

lemma gen_sconst:
  assumes "snd (sortRandom (baseFunctions L) (sconst 0)) = sconst 0"
  shows "generateRandomFunction sortRandom L (sconst 0)
         = (Neg (Paren (Mul (Const (Fin (1 / 2)))
                (Paren (take 1 (fst (sortRandom (baseFunctions L) (sconst 0))) ! 0)))),
            sconst 0)"
proof -
  obtain p r where pr: "sortRandom (baseFunctions L) (sconst 0) = (p, r)" by force
  with assms have r: "r = sconst 0" by simp
  show ?thesis
    unfolding generateRandomFunction_def createModifiedString_def
    by (simp add: pr r Let_def scalars_def)
qed

lemma getNewFunctions_sconst:
  assumes "snd (sortRandom (baseFunctions (intervalLimit_of interval)) (sconst 0)) = sconst 0"
  shows "getNewFunctions sortRandom interval (sconst 0) = None"
  by (rule getNewFunctions_fixed)
     (rule gen_sconst[of sortRandom "intervalLimit_of interval", OF assms])

lemma round_loop_sconst:
  assumes "snd (sortRandom (baseFunctions (intervalLimit_of interval)) (sconst 0)) = sconst 0"
  shows "round_loop sortRandom isUnitaryMode acuteAnglesOnly interval (sconst 0) = None"
  by (subst round_loop.simps)
     (simp add: getNewFunctions_sconst[of sortRandom interval, OF assms])

lemma keep_order_rest: "snd (keep_order xs rng) = rng"
  by (simp add: keep_order_def)

text \<open>Single draws, with the sort that keeps the order.\<close>

lemma gen_x: "generateRandomFunction keep_order L (0 ## 9/10 ## 9/10 ## s) = (Var, s)"
  unfolding generateRandomFunction_def createModifiedString_def keep_order_def baseFunctions_def
  by (simp add: Let_def)

lemma gen_negx:
  "generateRandomFunction keep_order L (0 ## 9/10 ## 1/10 ## s) = (Neg (Paren Var), s)"
  unfolding generateRandomFunction_def createModifiedString_def keep_order_def baseFunctions_def
  by (simp add: Let_def)

lemma gen_2x:
  "generateRandomFunction keep_order L (0 ## 1/10 ## 1/2 ## 9/10 ## s)
     = (Mul (Const (Fin 2)) (Paren Var), s)"
  unfolding generateRandomFunction_def createModifiedString_def keep_order_def baseFunctions_def
    scalars_def
  by (simp add: Let_def)

lemma redraw_many:
  "redraw keep_order L Var Var
     (concat (replicate n [0, 9/10, 9/10]) @- (0 ## 1/10 ## 1/2 ## 9/10 ## t))
     = Some (Mul (Const (Fin 2)) (Paren Var), t)"
proof (induction n)
  case 0
  show ?case
    by (simp add: redraw_again[OF _ gen_2x] redraw_exit)
next
  case (Suc n)
  then show ?case
    by (simp add: redraw_again[OF _ gen_x])
qed

lemma getNewFunctions_x_negx:
  "getNewFunctions keep_order interval (0 ## 9/10 ## 9/10 ## 0 ## 9/10 ## 1/10 ## s)
     = Some ((Var, Neg (Paren Var)), s)"
  unfolding getNewFunctions_def Let_def
  by (simp add: gen_x gen_negx redraw_exit)

text \<open>
  C2. The loop of \<open>getNewFunctions\<close> tests whether the first function is the second or
  the negation of the second. It does not test whether the second is the negation of the
  first: when the random numbers give \<open>x\<close> and then \<open>-(x)\<close>, that pair is returned. For
  every first function, a second draw that is its negation leaves the loop at once.
\<close>

theorem getNewFunctions_returns_negated_pair:
  "getNewFunctions keep_order (- 1, 1) (0 ## 9/10 ## 9/10 ## 0 ## 9/10 ## 1/10 ## s)
     = Some ((Var, Neg (Paren Var)), s)
   \<and> redraw sortRandom L f1 (Neg (Paren f1)) rng = Some (Neg (Paren f1), rng)"
proof -
  have "f1 \<noteq> Neg (Paren f1)" by (induction f1) simp_all
  moreover have "f1 \<noteq> Neg (Paren (Neg (Paren f1)))" by (induction f1) simp_all
  ultimately show ?thesis by (simp add: getNewFunctions_x_negx redraw_exit)
qed

text \<open>
  C9. Neither retry loop has a bound on its iterations or an error exit. The loop of
  \<open>getNewFunctions\<close> either never returns, or returns a second function that the first
  is neither equal to nor the negation of; the loop of \<open>startNewRound\<close> either never
  returns, or returns a result whose angle is not Null. The first loop returns normally
  after any number \<open>n\<close> of redraws (1000 and more). When \<open>Math.random()\<close> returns 0 at
  every call, \<open>getNewFunctions\<close> and with it the loop of \<open>startNewRound\<close> run forever,
  under every sort that hands the random numbers it did not take on to the next call.
\<close>

theorem retry_loops_unbounded:
  "(redraw sortRandom L f1 f2 rng = None
      \<or> (\<exists>f2' rng'. redraw sortRandom L f1 f2 rng = Some (f2', rng')
            \<and> f1 \<noteq> f2' \<and> f1 \<noteq> Neg (Paren f2')))
   \<and> (round_loop sortRandom isUnitaryMode acuteAnglesOnly interval rng = None
      \<or> (\<exists>res rng'. round_loop sortRandom isUnitaryMode acuteAnglesOnly interval rng
                        = Some (res, rng') \<and> angle res \<noteq> None))
   \<and> redraw keep_order L Var Var
        (concat (replicate n [0, 9/10, 9/10]) @- (0 ## 1/10 ## 1/2 ## 9/10 ## t))
       = Some (Mul (Const (Fin 2)) (Paren Var), t)
   \<and> (snd (sortRandom (baseFunctions (intervalLimit_of interval)) (sconst 0)) = sconst 0 \<longrightarrow>
        getNewFunctions sortRandom interval (sconst 0) = None
        \<and> round_loop sortRandom isUnitaryMode acuteAnglesOnly interval (sconst 0) = None)"
proof -
  have 1: "redraw sortRandom L f1 f2 rng = None
      \<or> (\<exists>f2' rng'. redraw sortRandom L f1 f2 rng = Some (f2', rng')
            \<and> f1 \<noteq> f2' \<and> f1 \<noteq> Neg (Paren f2'))"
  proof (cases "redraw sortRandom L f1 f2 rng")
    case None
    then show ?thesis by simp
  next
    case (Some y)
    from redraw_result[OF this] Some show ?thesis by (cases y) simp
  qed
  have 2: "round_loop sortRandom isUnitaryMode acuteAnglesOnly interval rng = None
      \<or> (\<exists>res rng'. round_loop sortRandom isUnitaryMode acuteAnglesOnly interval rng
                        = Some (res, rng') \<and> angle res \<noteq> None)"
  proof (cases "round_loop sortRandom isUnitaryMode acuteAnglesOnly interval rng")
    case None
    then show ?thesis by simp
  next
    case (Some y)
    from round_loop_result[OF this] Some show ?thesis by (cases y) simp
  qed
  from 1 2 redraw_many[of L n t]
    getNewFunctions_sconst[of sortRandom interval]
    round_loop_sconst[of sortRandom interval isUnitaryMode acuteAnglesOnly]
  show ?thesis by blast
qed

theorem retry_loops_unbounded_witness:
  "snd (keep_order (baseFunctions (intervalLimit_of (- 1, 1))) (sconst 0)) = sconst 0
   \<and> getNewFunctions keep_order (- 1, 1) (sconst 0) = None
   \<and> round_loop keep_order False False (- 1, 1) (sconst 0) = None"
  using retry_loops_unbounded[of keep_order 1 Var Var "sconst 0" False False "(- 1, 1)" 0 "sconst 0"]
    keep_order_rest[of "baseFunctions (intervalLimit_of (- 1, 1))" "sconst 0"]
  by blast

text \<open>
  No cap ends the loop and no error comes out of it: when \<open>Math.random()\<close> returns 0 at
  every call, \<open>getNewFunctions\<close> does not return.
\<close>

theorem getNewFunctions_never_returns:
  "getNewFunctions keep_order (- 1, 1) (sconst 0) = None"
  by (rule getNewFunctions_sconst) (rule keep_order_rest)

section \<open>Composed primitives\<close>

text \<open>
  With two chosen primitives the generator may compose them: the second, with its
  scalar and its parentheses, takes the place of \<open>x\<close> in the first.
\<close>

lemma gen_asin_cbrt2:
  "generateRandomFunction reverse_order L (1/2 ## 1/2 ## 1/2 ## 0 ## 1/2 ## 1/2 ## 9/10 ## 0 ## s)
     = (Paren (Fn Asin (Div (Paren (Mul (Const (Fin 2)) (Paren (Fn Cbrt Var)))) (Const (Fin L)))), s)"
  unfolding generateRandomFunction_def createModifiedString_def reverse_order_def baseFunctions_def
    scalars_def
  by (simp add: Let_def)

lemma gen_asin_cbrt3:
  "generateRandomFunction reverse_order L (1/2 ## 1/2 ## 1/2 ## 0 ## 9/10 ## 1/2 ## 9/10 ## 0 ## s)
     = (Paren (Fn Asin (Div (Paren (Mul (Const (Fin 3)) (Paren (Fn Cbrt Var)))) (Const (Fin L)))), s)"
  unfolding generateRandomFunction_def createModifiedString_def reverse_order_def baseFunctions_def
    scalars_def
  by (simp add: Let_def)

lemma getNewFunctions_asin:
  "getNewFunctions reverse_order (- 1, 1) asin_draws
     = Some ((Paren (Fn Asin (Div (Paren (Mul (Const (Fin 2)) (Paren (Fn Cbrt Var)))) (Const (Fin 1)))),
              Paren (Fn Asin (Div (Paren (Mul (Const (Fin 3)) (Paren (Fn Cbrt Var)))) (Const (Fin 1))))),
             sconst 0)"
  unfolding getNewFunctions_def Let_def asin_draws_def
  by (simp add: gen_asin_cbrt2 gen_asin_cbrt3 redraw_exit intervalLimit_of_def)


lemma eval_asin_arg:
  "evaluate (Div (Paren (Mul (Const (Fin 2)) (Paren (Fn Cbrt Var)))) (Const (Fin 1))) (Fin 1) = Fin 2"
  by simp

lemma eval_asin_right:
  "evaluate (Paren (Fn Asin (Div (Paren (Mul (Const (Fin 2)) (Paren (Fn Cbrt Var)))) (Const (Fin 1)))))
     (Fin 1) = NaN"
  by simp

lemma eval_asin2_left:
  "evaluate (Paren (Fn Asin (Div (Paren (Mul (Const (Fin 2)) (Paren (Fn Cbrt Var)))) (Const (Fin 1)))))
     (Fin (- 1)) = NaN"
  by (simp add: real_root_minus)

lemma eval_asin3_left:
  "evaluate (Paren (Fn Asin (Div (Paren (Mul (Const (Fin 3)) (Paren (Fn Cbrt Var)))) (Const (Fin 1)))))
     (Fin (- 1)) = NaN"
  by (simp add: real_root_minus)

lemma scaling_keeps_NaN:
  assumes "evaluate f1 x = NaN" "evaluate f2 x = NaN"
  shows "evaluate (fst (scaling f1 f2 I)) x = NaN \<and> evaluate (snd (scaling f1 f2 I)) x = NaN"
  unfolding scaling_def Let_def using assms by simp

lemma norm_NaN_at_a: "evaluate g (Fin a) = NaN \<Longrightarrow> norm_of g (a, b) = NaN"
  unfolding norm_of_def normSq_def integrate_node_def
  by (simp add: simpsonsRule_NaN_at_a)

lemma ip_NaN_at_a: "evaluate g1 (Fin a) = NaN \<Longrightarrow> innerProduct g1 g2 (a, b) = NaN"
  unfolding innerProduct_def integrate_node_def
  by (simp add: simpsonsRule_NaN_at_a)

lemma calc_NaN_at_a:
  assumes "evaluate g1 (Fin a) = NaN" "evaluate g2 (Fin a) = NaN"
  shows "angle (calculateAngle g1 g2 isUnitary (a, b) ensureAcute) = Some NaN"
proof -
  have n: "norm_of g1 (a, b) = NaN" "norm_of g2 (a, b) = NaN"
    using assms by (simp_all add: norm_NaN_at_a)
  define h1 where "h1 = (if isUnitary then Div (Paren g1) (Const (norm_of g1 (a, b))) else g1)"
  define h2u where "h2u = (if isUnitary then Div (Paren g2) (Const (norm_of g2 (a, b))) else g2)"
  define h2 where "h2 = (if ensureAcute \<and> jlt (innerProduct h1 h2u (a, b)) (Fin 0)
                         then Neg (Paren h2u) else h2u)"
  have e1: "evaluate h1 (Fin a) = NaN" unfolding h1_def using assms by simp
  have e2u: "evaluate h2u (Fin a) = NaN" unfolding h2u_def using assms by simp
  have e2: "evaluate h2 (Fin a) = NaN" unfolding h2_def using e2u by simp
  have ip: "innerProduct h1 h2u (a, b) = NaN" using e1 by (rule ip_NaN_at_a)
  have m: "norm_of h1 (a, b) = NaN" "norm_of h2 (a, b) = NaN"
    using e1 e2 by (simp_all add: norm_NaN_at_a)
  have "calculateAngle g1 g2 isUnitary (a, b) ensureAcute
          = \<lparr>angle = Some (angleDeg NaN NaN NaN), f1_final = h1, f2_final = h2\<rparr>"
    unfolding calculateAngle_cases
    unfolding h1_def[symmetric] h2u_def[symmetric]
    unfolding h2_def[symmetric]
    by (simp add: n m ip)
  then show ?thesis by (simp add: angleDeg_NaN)
qed

lemma round_loop_asin:
  "\<exists>res. round_loop reverse_order isUnitaryMode acuteAnglesOnly (- 1, 1) asin_draws
            = Some (res, sconst 0) \<and> angle res = Some NaN"
proof -
  define F1 where "F1 = Paren (Fn Asin (Div (Paren (Mul (Const (Fin 2)) (Paren (Fn Cbrt Var)))) (Const (Fin 1))))"
  define F2 where "F2 = Paren (Fn Asin (Div (Paren (Mul (Const (Fin 3)) (Paren (Fn Cbrt Var)))) (Const (Fin 1))))"
  obtain g1 g2 where sc: "scaling F1 F2 (- 1, 1) = (g1, g2)" by fastforce
  have "evaluate F1 (Fin (- 1)) = NaN" "evaluate F2 (Fin (- 1)) = NaN"
    unfolding F1_def F2_def by (rule eval_asin2_left, rule eval_asin3_left)
  from scaling_keeps_NaN[OF this, of "(- 1, 1)"] sc
  have e: "evaluate g1 (Fin (- 1)) = NaN" "evaluate g2 (Fin (- 1)) = NaN" by simp_all
  have c: "angle (calculateAngle g1 g2 isUnitaryMode (- 1, 1) acuteAnglesOnly) = Some NaN"
    using e by (rule calc_NaN_at_a)
  have g: "getNewFunctions reverse_order (- 1, 1) asin_draws = Some ((F1, F2), sconst 0)"
    unfolding F1_def F2_def by (rule getNewFunctions_asin)
  show ?thesis
    by (subst round_loop.simps) (simp add: g sc c)
qed

text \<open>
  C8. The argument of \<open>asin\<close> is \<open>x / intervalLimit\<close> only while the primitive stands
  alone. On the interval \<open>[-1,1]\<close>, whose limit is 1, \<open>generateRandomFunction\<close> composes
  \<open>asin(x / 1)\<close> with \<open>2 * (cbrt(x))\<close>, and \<open>getNewFunctions\<close> returns the result as the
  first function of the round. At \<open>x = 1\<close>, a point of the interval, the argument of
  \<open>asin\<close> is 2, outside \<open>[-1,1]\<close>, and the value of the function is NaN.
\<close>

theorem generated_asin_out_of_domain:
  "intervalLimit_of (- 1, 1) = 1
   \<and> fst (generateRandomFunction reverse_order (intervalLimit_of (- 1, 1)) asin_draws)
       = Paren (Fn Asin (Div (Paren (Mul (Const (Fin 2)) (Paren (Fn Cbrt Var)))) (Const (Fin 1))))
   \<and> getNewFunctions reverse_order (- 1, 1) asin_draws
       = Some ((Paren (Fn Asin (Div (Paren (Mul (Const (Fin 2)) (Paren (Fn Cbrt Var))))
                                 (Const (Fin 1)))),
                Paren (Fn Asin (Div (Paren (Mul (Const (Fin 3)) (Paren (Fn Cbrt Var))))
                                 (Const (Fin 1))))),
               sconst 0)
   \<and> evaluate (Div (Paren (Mul (Const (Fin 2)) (Paren (Fn Cbrt Var)))) (Const (Fin 1))) (Fin 1)
       = Fin 2
   \<and> evaluate (Paren (Fn Asin (Div (Paren (Mul (Const (Fin 2)) (Paren (Fn Cbrt Var))))
                                (Const (Fin 1))))) (Fin 1) = NaN"
proof -
  have 1: "intervalLimit_of (- 1, 1) = 1" by (simp add: intervalLimit_of_def)
  have 2: "fst (generateRandomFunction reverse_order 1 asin_draws)
       = Paren (Fn Asin (Div (Paren (Mul (Const (Fin 2)) (Paren (Fn Cbrt Var)))) (Const (Fin 1))))"
    unfolding asin_draws_def by (simp add: gen_asin_cbrt2)
  from 1 2 getNewFunctions_asin eval_asin_arg eval_asin_right show ?thesis
    by (simp only: simp_thms)
qed

text \<open>
  The angle of a round can be NaN. With the two functions above, both NaN at the left
  end of \<open>[-1,1]\<close>, the scaling logic leaves the NaN in place, \<open>calculateAngle\<close> returns the
  angle NaN in every mode, and the loop of \<open>startNewRound\<close> ends with it, since it only
  repeats on Null. The score of the guess 90 is then NaN, not a number between 0 and 100.
\<close>

theorem score_NaN_round_counterexample:
  "(\<forall>isUnitaryMode acuteAnglesOnly.
      \<exists>res. round_loop reverse_order isUnitaryMode acuteAnglesOnly (- 1, 1) asin_draws
               = Some (res, sconst 0) \<and> angle res = Some NaN)
   \<and> score NaN (Fin 90) = NaN"
  using round_loop_asin by (simp add: score_def diff_of_def jsub_def)

end
